theory Spec2Isabelle
  imports Main "HOL-Library.Sublist"
begin

section \<open>Configuration lookup: \<open>getEnv\<close>\<close>

text \<open>
  Go strings are byte sequences; they are modelled as \<open>string\<close> (a list of 8-bit
  characters). The process environment is a partial map from names to values, and
  \<open>os.Getenv\<close> reads it, giving the empty string for a name that is not set.
\<close>

type_synonym environ = "string \<Rightarrow> string option"

definition Getenv :: "environ \<Rightarrow> string \<Rightarrow> string" where
  "Getenv env k = (case env k of None \<Rightarrow> [] | Some v \<Rightarrow> v)"

text \<open>
  \<open>strings.ReplaceAll(s, old, new)\<close> for a one-byte \<open>old\<close> and a one-byte \<open>new\<close>
  (the only use in the program replaces \<open>-\<close> by \<open>_\<close>): every occurrence of the byte is
  replaced.
\<close>

definition ReplaceAll :: "string \<Rightarrow> char \<Rightarrow> char \<Rightarrow> string" where
  "ReplaceAll s old new = map (\<lambda>c. if c = old then new else c) s"

text \<open>
  \<open>strings.ToUpper\<close>: a string of ASCII bytes only is mapped byte by byte, \<open>a\<close>..\<open>z\<close> to
  \<open>A\<close>..\<open>Z\<close>. A string with a byte \<open>\<ge> 0x80\<close> goes through the Unicode case tables of the
  Go library, which are not part of the program: that path is the parameter \<open>U\<close>.
\<close>

definition isASCII :: "string \<Rightarrow> bool" where
  "isASCII s = list_all (\<lambda>c. (of_char c :: nat) < 128) s"

definition upperByte :: "char \<Rightarrow> char" where
  "upperByte c = (let n = (of_char c :: nat) in
     if 97 \<le> n \<and> n \<le> 122 then char_of (n - 32) else c)"

definition ToUpper :: "(string \<Rightarrow> string) \<Rightarrow> string \<Rightarrow> string" where
  "ToUpper U s = (if isASCII s then map upperByte s else U s)"

definition getEnv :: "(string \<Rightarrow> string) \<Rightarrow> environ \<Rightarrow> string \<Rightarrow> string" where
  "getEnv U env key =
     (let inputKey = ''INPUT_'' @ ToUpper U (ReplaceAll key (CHR ''-'') (CHR ''_''));
          val = Getenv env inputKey
      in if val \<noteq> [] then val
         else (let upperKey = ToUpper U key in Getenv env upperKey))"

section \<open>The response check at the end of \<open>main\<close>\<close>

text \<open>
  \<open>FeishuResponse\<close> is the decoded response body. \<open>Data\<close> is never read by the program;
  its type is left open.
\<close>

record 'd FeishuResponse =
  Code :: int
  Msg :: string
  Data :: 'd

text \<open>
  What a run leaves behind: the text written to standard output and to standard error by
  the step, and the exit status of the process.
\<close>

record outcome =
  stdout :: string
  stderr :: string
  exitStatus :: int

text \<open>The verb \<open>%d\<close> of \<open>fmt\<close>: an integer in decimal, with a minus sign when negative.\<close>

fun fmtNat :: "nat \<Rightarrow> string" where
  "fmtNat n = (if n < 10 then [char_of (48 + n)] else fmtNat (n div 10) @ [char_of (48 + n mod 10)])"

declare fmtNat.simps [simp del]

definition fmtInt :: "int \<Rightarrow> string" where
  "fmtInt i = (if i < 0 then CHR ''-'' # fmtNat (nat (- i)) else fmtNat (nat i))"

text \<open>
  Lines 167 to 173 of \<open>main\<close>, reached once the response body has been read and decoded:
  \<open>statusCode\<close> is \<open>resp.StatusCode\<close>, and \<open>http.StatusOK\<close> is 200. \<open>os.Exit(1)\<close> ends
  the process with status 1; returning from \<open>main\<close> ends it with status 0.
\<close>

definition main_checkResponse :: "int \<Rightarrow> 'd FeishuResponse \<Rightarrow> outcome" where
  "main_checkResponse statusCode feishuResp =
     (if statusCode \<noteq> 200 \<or> Code feishuResp \<noteq> 0 then
        \<lparr>stdout = [],
         stderr = ''::error::Request failed with code '' @ fmtInt (Code feishuResp) @ '': ''
                   @ Msg feishuResp @ [CHR 0x0A],
         exitStatus = 1\<rparr>
      else
        \<lparr>stdout = ''::notice::Message sent successfully'' @ [CHR 0x0A],
         stderr = [],
         exitStatus = 0\<rparr>)"


section \<open>The string functions of the Go library that \<open>parseUsers\<close> calls\<close>

text \<open>
  \<open>strings.Split(s, sep)\<close> for a one-byte separator: the pieces between the occurrences
  of \<open>sep\<close>, one more than there are occurrences. \<open>cur\<close> is the piece being read.
\<close>

fun splitFrom :: "char \<Rightarrow> string \<Rightarrow> string \<Rightarrow> string list" where
  "splitFrom sep cur [] = [cur]"
| "splitFrom sep cur (c # cs) =
     (if c = sep then cur # splitFrom sep [] cs else splitFrom sep (cur @ [c]) cs)"

definition Split :: "string \<Rightarrow> char \<Rightarrow> string list" where
  "Split s sep = splitFrom sep [] s"

text \<open>
  \<open>strings.SplitN(s, sep, 2)\<close> for a one-byte separator: the text before the first
  \<open>sep\<close> and the text after it, or \<open>s\<close> alone when \<open>sep\<close> does not occur.
\<close>

definition SplitN2 :: "string \<Rightarrow> char \<Rightarrow> string list" where
  "SplitN2 s sep =
     (if sep \<in> set s then [takeWhile (\<lambda>c. c \<noteq> sep) s, tl (dropWhile (\<lambda>c. c \<noteq> sep) s)]
      else [s])"

text \<open>
  \<open>strings.TrimSpace\<close> removes the leading and then the trailing white space, as
  \<open>unicode.IsSpace\<close> defines it. On the bytes of a string these are the UTF-8 encodings
  of U+0009..U+000D, U+0020, U+0085, U+00A0, U+1680, U+2000..U+200A, U+2028, U+2029,
  U+202F, U+205F and U+3000. A byte that is not part of a valid encoding decodes to
  U+FFFD, which is not white space, and stops the trimming.
\<close>

definition spaceRunes :: "string list" where
  "spaceRunes =
     [[CHR 0x09], [CHR 0x0A], [CHR 0x0B], [CHR 0x0C], [CHR 0x0D], [CHR 0x20],
      [CHR 0xC2, CHR 0x85], [CHR 0xC2, CHR 0xA0],
      [CHR 0xE1, CHR 0x9A, CHR 0x80],
      [CHR 0xE2, CHR 0x80, CHR 0x80], [CHR 0xE2, CHR 0x80, CHR 0x81],
      [CHR 0xE2, CHR 0x80, CHR 0x82], [CHR 0xE2, CHR 0x80, CHR 0x83],
      [CHR 0xE2, CHR 0x80, CHR 0x84], [CHR 0xE2, CHR 0x80, CHR 0x85],
      [CHR 0xE2, CHR 0x80, CHR 0x86], [CHR 0xE2, CHR 0x80, CHR 0x87],
      [CHR 0xE2, CHR 0x80, CHR 0x88], [CHR 0xE2, CHR 0x80, CHR 0x89],
      [CHR 0xE2, CHR 0x80, CHR 0x8A],
      [CHR 0xE2, CHR 0x80, CHR 0xA8], [CHR 0xE2, CHR 0x80, CHR 0xA9],
      [CHR 0xE2, CHR 0x80, CHR 0xAF], [CHR 0xE2, CHR 0x81, CHR 0x9F],
      [CHR 0xE3, CHR 0x80, CHR 0x80]]"

text \<open>
  \<open>trimLeading qs s\<close> removes from the front of \<open>s\<close>, as long as there is one, a
  sequence of \<open>qs\<close>. The test \<open>q \<noteq> []\<close> serves the termination proof; no sequence of
  \<open>spaceRunes\<close> is empty (lemma \<open>spaceRunes_nonempty\<close>).
\<close>

function trimLeading :: "string list \<Rightarrow> string \<Rightarrow> string" where
  "trimLeading qs s =
     (case find (\<lambda>q. q \<noteq> [] \<and> take (length q) s = q) qs of
        None \<Rightarrow> s
      | Some q \<Rightarrow> trimLeading qs (drop (length q) s))"
  by pat_completeness auto
termination
proof (relation "measure (\<lambda>(qs, s). length s)")
  show "wf (measure (\<lambda>(qs, s). length s))" by simp
next
  fix qs :: "string list" and s x2 :: string
  assume "find (\<lambda>q. q \<noteq> [] \<and> take (length q) s = q) qs = Some x2"
  then have "x2 \<noteq> []" and "take (length x2) s = x2"
    by (auto simp: find_Some_iff)
  then have "s \<noteq> []" by auto
  with \<open>x2 \<noteq> []\<close> show "((qs, drop (length x2) s), (qs, s)) \<in> measure (\<lambda>(qs, s). length s)"
    by simp
qed

declare trimLeading.simps [simp del]

definition TrimLeftFunc :: "string \<Rightarrow> string" where
  "TrimLeftFunc s = trimLeading spaceRunes s"

definition TrimRightFunc :: "string \<Rightarrow> string" where
  "TrimRightFunc s = rev (trimLeading (map rev spaceRunes) (rev s))"

definition TrimSpace :: "string \<Rightarrow> string" where
  "TrimSpace s = TrimRightFunc (TrimLeftFunc s)"

lemma spaceRunes_nonempty: "[] \<notin> set spaceRunes" "[] \<notin> set (map rev spaceRunes)"
  by (simp_all add: spaceRunes_def)

text \<open>
  \<open>fmt.Sprintf\<close> with the format of line 229: the two \<open>%s\<close> verbs copy their arguments
  as they are.
\<close>

definition Sprintf_at :: "string \<Rightarrow> string \<Rightarrow> string" where
  "Sprintf_at openID username =
     ''<at user_id='' @ [CHR 0x22] @ openID @ [CHR 0x22] @ ''>'' @ username @ ''</at> ''"

section \<open>\<open>json.Unmarshal\<close>\<close>

text \<open>
  \<open>json.Unmarshal\<close> first checks that the whole input is one JSON text (RFC 8259, with
  white space around it), and fails with a syntax error otherwise; it then decodes the
  value into the Go variable, and reports the first type mismatch it met after the
  decoding is done. \<open>parseJSON\<close> is the first part, \<open>decodeSlice\<close> and \<open>decodeStruct\<close> are
  the second part for the two variables of \<open>parseUsers\<close>. The syntax check of the
  library also refuses, with the error \<open>exceeded max depth\<close>, a document in which arrays
  and objects are nested more than \<open>maxNestingDepth\<close> deep (the constant 10000 of the
  scanner of \<open>encoding/json\<close>, since Go 1.15).
\<close>

datatype json =
    JNull
  | JBool bool
  | JNumber string
  | JString string
  | JArray "json list"
  | JObject "(string \<times> json) list"

definition isSpaceJSON :: "char \<Rightarrow> bool" where
  "isSpaceJSON c = (c = CHR 0x20 \<or> c = CHR 0x09 \<or> c = CHR 0x0D \<or> c = CHR 0x0A)"

definition skipSpace :: "string \<Rightarrow> string" where
  "skipSpace s = dropWhile isSpaceJSON s"

definition isDigit :: "char \<Rightarrow> bool" where
  "isDigit c = (48 \<le> (of_char c :: nat) \<and> (of_char c :: nat) \<le> 57)"

definition hexVal :: "char \<Rightarrow> nat option" where
  "hexVal c = (let n = (of_char c :: nat) in
     if 48 \<le> n \<and> n \<le> 57 then Some (n - 48)
     else if 97 \<le> n \<and> n \<le> 102 then Some (n - 87)
     else if 65 \<le> n \<and> n \<le> 70 then Some (n - 55)
     else None)"

text \<open>getu4: the code unit of a \<open>\uXXXX\<close> escape at the head of the input.\<close>

definition getu4 :: "string \<Rightarrow> nat option" where
  "getu4 s = (case s of
      b # u # h1 # h2 # h3 # h4 # _ \<Rightarrow>
        if b = CHR 0x5C \<and> u = CHR ''u'' then
          (case (hexVal h1, hexVal h2, hexVal h3, hexVal h4) of
             (Some a, Some b, Some c, Some d) \<Rightarrow> Some (a * 4096 + b * 256 + c * 16 + d)
           | _ \<Rightarrow> None)
        else None
    | _ \<Rightarrow> None)"

definition replacementChar :: string where
  "replacementChar = [CHR 0xEF, CHR 0xBF, CHR 0xBD]"

definition EncodeRune :: "nat \<Rightarrow> string" where
  "EncodeRune r =
     (if r < 128 then [char_of r]
      else if r < 2048 then [char_of (192 + r div 64), char_of (128 + r mod 64)]
      else if (55296 \<le> r \<and> r < 57344) \<or> 1114111 < r then replacementChar
      else if r < 65536 then
        [char_of (224 + r div 4096), char_of (128 + (r div 64) mod 64), char_of (128 + r mod 64)]
      else
        [char_of (240 + r div 262144), char_of (128 + (r div 4096) mod 64),
         char_of (128 + (r div 64) mod 64), char_of (128 + r mod 64)])"

definition isCont :: "char \<Rightarrow> bool" where
  "isCont c = (128 \<le> (of_char c :: nat) \<and> (of_char c :: nat) \<le> 191)"

text \<open>
  The width of the valid UTF-8 encoding at the head of the input, whose first byte is
  \<open>\<ge> 0x80\<close>; 0 when the head is not a valid encoding (utf8.DecodeRune then gives
  RuneError with width 1).
\<close>

definition runeWidth :: "string \<Rightarrow> nat" where
  "runeWidth s = (case s of
      [] \<Rightarrow> 0
    | c0 # r0 \<Rightarrow>
        (let b0 = (of_char c0 :: nat) in
         if 194 \<le> b0 \<and> b0 \<le> 223 then
           (case r0 of c1 # _ \<Rightarrow> if isCont c1 then 2 else 0 | _ \<Rightarrow> 0)
         else if 224 \<le> b0 \<and> b0 \<le> 239 then
           (case r0 of c1 # c2 # _ \<Rightarrow>
              (let b1 = (of_char c1 :: nat) in
               if (if b0 = 224 then 160 else 128) \<le> b1 \<and> b1 \<le> (if b0 = 237 then 159 else 191)
                  \<and> isCont c2 then 3 else 0)
            | _ \<Rightarrow> 0)
         else if 240 \<le> b0 \<and> b0 \<le> 244 then
           (case r0 of c1 # c2 # c3 # _ \<Rightarrow>
              (let b1 = (of_char c1 :: nat) in
               if (if b0 = 240 then 144 else 128) \<le> b1 \<and> b1 \<le> (if b0 = 244 then 143 else 191)
                  \<and> isCont c2 \<and> isCont c3 then 4 else 0)
            | _ \<Rightarrow> 0)
         else 0))"

definition simpleEscape :: "char \<Rightarrow> char option" where
  "simpleEscape e =
     (if e = CHR 0x22 \<or> e = CHR 0x5C \<or> e = CHR ''/'' then Some e
      else if e = CHR ''b'' then Some (CHR 0x08)
      else if e = CHR ''f'' then Some (CHR 0x0C)
      else if e = CHR ''n'' then Some (CHR 0x0A)
      else if e = CHR ''r'' then Some (CHR 0x0D)
      else if e = CHR ''t'' then Some (CHR 0x09)
      else None)"

text \<open>
  One turn of the loop that reads the body of a string literal, at a byte that is not the
  closing quote: the bytes it adds to the decoded string and the input left. An escape
  is decoded (a \<open>\u\<close> escape that is not half of a valid surrogate pair becomes
  U+FFFD where it is a surrogate), a control byte is a syntax error, a valid UTF-8
  encoding is copied and any other byte \<open>\<ge> 0x80\<close> becomes U+FFFD.
\<close>

definition unquoteStep :: "string \<Rightarrow> (string \<times> string) option" where
  "unquoteStep s = (case s of
      [] \<Rightarrow> None
    | c # cs \<Rightarrow>
        if c = CHR 0x5C then
          (case cs of
             [] \<Rightarrow> None
           | e # r \<Rightarrow>
               if e = CHR ''u'' then
                 (case getu4 s of
                    None \<Rightarrow> None
                  | Some rr \<Rightarrow>
                      (let r4 = drop 4 r in
                       if 55296 \<le> rr \<and> rr < 57344 then
                         (case getu4 r4 of
                            Some rr1 \<Rightarrow>
                              if rr < 56320 \<and> 56320 \<le> rr1 \<and> rr1 < 57344 then
                                Some (EncodeRune ((rr - 55296) * 1024 + (rr1 - 56320) + 65536),
                                      drop 6 r4)
                              else Some (replacementChar, r4)
                          | None \<Rightarrow> Some (replacementChar, r4))
                       else Some (EncodeRune rr, r4)))
               else
                 (case simpleEscape e of
                    None \<Rightarrow> None
                  | Some b \<Rightarrow> Some ([b], r)))
        else if (of_char c :: nat) < 32 then None
        else if (of_char c :: nat) < 128 then Some ([c], cs)
        else
          (let w = runeWidth s in
           if w = 0 then Some (replacementChar, cs)
           else Some (take w s, drop w s)))"

lemma getu4_Some_length: "getu4 s = Some x \<Longrightarrow> 6 \<le> length s"
  by (auto simp: getu4_def split: list.splits if_splits)

lemma unquoteStep_shorter: "unquoteStep s = Some (bs, r) \<Longrightarrow> length r < length s"
  by (auto simp: unquoteStep_def Let_def split: list.splits if_splits option.splits
           dest: getu4_Some_length)

text \<open>
  The body of a string literal, read after its opening quote: the decoded bytes and the
  input left after the closing quote.
\<close>

function scanString :: "string \<Rightarrow> string \<Rightarrow> (string \<times> string) option" where
  "scanString acc s = (case s of
      [] \<Rightarrow> None
    | c # cs \<Rightarrow>
        if c = CHR 0x22 then Some (acc, cs)
        else
          (case unquoteStep s of
             None \<Rightarrow> None
           | Some (bs, r) \<Rightarrow> scanString (acc @ bs) r))"
  by pat_completeness auto
termination
  by (relation "measure (\<lambda>(acc, s). length s)") (auto dest: unquoteStep_shorter)

declare scanString.simps [simp del]

definition scanDigits :: "string \<Rightarrow> string option" where
  "scanDigits s = (case s of
      [] \<Rightarrow> None
    | d # r \<Rightarrow> if isDigit d then Some (dropWhile isDigit r) else None)"

definition scanInt :: "string \<Rightarrow> string option" where
  "scanInt s = (case s of
      [] \<Rightarrow> None
    | d # r \<Rightarrow>
        if d = CHR ''0'' then Some r
        else if isDigit d then Some (dropWhile isDigit r)
        else None)"

definition scanFrac :: "string \<Rightarrow> string option" where
  "scanFrac s = (case s of
      [] \<Rightarrow> Some s
    | d # r \<Rightarrow> if d = CHR ''.'' then scanDigits r else Some s)"

definition scanExp :: "string \<Rightarrow> string option" where
  "scanExp s = (case s of
      [] \<Rightarrow> Some s
    | e # r \<Rightarrow>
        if e = CHR ''e'' \<or> e = CHR ''E'' then
          (case r of
             [] \<Rightarrow> None
           | g # t \<Rightarrow> if g = CHR ''+'' \<or> g = CHR ''-'' then scanDigits t else scanDigits r)
        else Some s)"

definition scanNumber :: "string \<Rightarrow> string option" where
  "scanNumber s =
     Option.bind (scanInt (case s of [] \<Rightarrow> [] | c # r \<Rightarrow> if c = CHR ''-'' then r else s))
       (\<lambda>r1. Option.bind (scanFrac r1) scanExp)"

definition scanLiteral :: "string \<Rightarrow> json \<Rightarrow> string \<Rightarrow> (json \<times> string) option" where
  "scanLiteral lit v s =
     (if take (length lit) s = lit then Some (v, drop (length lit) s) else None)"

lemma scanString_shorter: "scanString acc s = Some (k, r) \<Longrightarrow> length r < length s"
proof (induction acc s rule: scanString.induct)
  case (1 acc s)
  show ?case
  proof (cases s)
    case Nil
    with "1.prems" show ?thesis by (simp add: scanString.simps)
  next
    case (Cons c cs)
    show ?thesis
    proof (cases "c = CHR 0x22")
      case True
      with "1.prems" Cons show ?thesis by (simp add: scanString.simps)
    next
      case False
      with "1.prems" Cons obtain bs r1
        where st: "unquoteStep s = Some (bs, r1)" and rec: "scanString (acc @ bs) r1 = Some (k, r)"
        by (subst (asm) scanString.simps) (auto split: option.splits)
      from "1.IH" [OF Cons False st refl rec] unquoteStep_shorter [OF st]
      show ?thesis by simp
    qed
  qed
qed

lemma length_skipSpace: "length (skipSpace s) \<le> length s"
  by (simp add: skipSpace_def length_dropWhile_le)

text \<open>
  The value at the head of the input (after white space), and the input left after it.
  \<open>parseElems\<close> reads the elements of an array after its \<open>[\<close>, \<open>parseMembers\<close> the
  members of an object from the quote of a key on; \<open>acc\<close> holds what has been read. The
  two length tests only serve the termination proof: the input left by \<open>parseValue\<close> is
  always shorter than its input (lemma \<open>parse_shorter\<close>), so they never fail.
\<close>

function parseValue :: "string \<Rightarrow> (json \<times> string) option"
  and parseElems :: "json list \<Rightarrow> string \<Rightarrow> (json \<times> string) option"
  and parseMembers :: "(string \<times> json) list \<Rightarrow> string \<Rightarrow> (json \<times> string) option"
where
  "parseValue s =
     (case skipSpace s of
        [] \<Rightarrow> None
      | c # r \<Rightarrow>
          if c = CHR ''{'' then
            (case skipSpace r of
               [] \<Rightarrow> None
             | d # r' \<Rightarrow> if d = CHR ''}'' then Some (JObject [], r') else parseMembers [] (d # r'))
          else if c = CHR ''['' then
            (case skipSpace r of
               [] \<Rightarrow> None
             | d # r' \<Rightarrow> if d = CHR '']'' then Some (JArray [], r') else parseElems [] (d # r'))
          else if c = CHR 0x22 then
            (case scanString [] r of None \<Rightarrow> None | Some (str, r') \<Rightarrow> Some (JString str, r'))
          else if c = CHR ''-'' \<or> isDigit c then
            (case scanNumber (c # r) of
               None \<Rightarrow> None
             | Some r' \<Rightarrow> Some (JNumber (take (length (c # r) - length r') (c # r)), r'))
          else if c = CHR ''t'' then scanLiteral ''true'' (JBool True) (c # r)
          else if c = CHR ''f'' then scanLiteral ''false'' (JBool False) (c # r)
          else if c = CHR ''n'' then scanLiteral ''null'' JNull (c # r)
          else None)"
| "parseElems acc s =
     (case parseValue s of
        None \<Rightarrow> None
      | Some (v, r) \<Rightarrow>
          (case skipSpace r of
             [] \<Rightarrow> None
           | c # r' \<Rightarrow>
               if c = CHR '','' then
                 (if length r' < length s then parseElems (acc @ [v]) r' else None)
               else if c = CHR '']'' then Some (JArray (acc @ [v]), r')
               else None))"
| "parseMembers acc s =
     (case s of
        [] \<Rightarrow> None
      | q # r0 \<Rightarrow>
          if q = CHR 0x22 then
            (case scanString [] r0 of
               None \<Rightarrow> None
             | Some (k, r1) \<Rightarrow>
                 (case skipSpace r1 of
                    [] \<Rightarrow> None
                  | c # r2 \<Rightarrow>
                      if c = CHR '':'' then
                        (case parseValue r2 of
                           None \<Rightarrow> None
                         | Some (v, r3) \<Rightarrow>
                             (case skipSpace r3 of
                                [] \<Rightarrow> None
                              | d # r4 \<Rightarrow>
                                  if d = CHR '','' then
                                    (if length (skipSpace r4) < length s
                                     then parseMembers (acc @ [(k, v)]) (skipSpace r4) else None)
                                  else if d = CHR ''}'' then Some (JObject (acc @ [(k, v)]), r4)
                                  else None))
                      else None))
          else None)"
  by pat_completeness auto
termination
proof (relation "measure (\<lambda>x. case x of
          Inl s \<Rightarrow> 2 * length s
        | Inr (Inl (acc, s)) \<Rightarrow> 2 * length s + 1
        | Inr (Inr (acc, s)) \<Rightarrow> 2 * length s + 1)", goal_cases)
  case 1
  then show ?case by simp
next
  case (2 s c r d r')
  then show ?case
    using length_skipSpace [of r] length_skipSpace [of s] by auto
next
  case (3 s c r d r')
  then show ?case
    using length_skipSpace [of r] length_skipSpace [of s] by auto
next
  case (6 acc s q r0 x2 k r1 c r2)
  then show ?case
    using length_skipSpace [of r1] scanString_shorter [of "[]" r0 k r1] by auto
qed auto

declare parseValue.simps [simp del] parseElems.simps [simp del] parseMembers.simps [simp del]

text \<open>
  The nesting depth of a value: an array or an object, empty or not, is one level around
  its elements. The scanner of the library counts the levels as it reads and stops with
  an error at the bracket that opens level \<open>maxNestingDepth + 1\<close>; the model reads the
  value first and compares its depth, which refuses the same documents.
\<close>

primrec depth :: "json \<Rightarrow> nat" where
  "depth JNull = 0"
| "depth (JBool b) = 0"
| "depth (JNumber n) = 0"
| "depth (JString s) = 0"
| "depth (JArray vs) = Suc (foldr max (map depth vs) 0)"
| "depth (JObject kvs) = Suc (foldr max (map snd (map (map_prod id depth) kvs)) 0)"

definition maxNestingDepth :: nat where
  "maxNestingDepth = 10000"

definition parseJSON :: "string \<Rightarrow> json option" where
  "parseJSON s = (case parseValue s of
      None \<Rightarrow> None
    | Some (v, r) \<Rightarrow>
        if skipSpace r = [] \<and> depth v \<le> maxNestingDepth then Some v else None)"

text \<open>
  The element type of \<open>assignees\<close>: a struct with the one field \<open>Login\<close>, tagged
  \<open>json:"login"\<close>. A key of the document names the field when it equals \<open>login\<close> up to
  the case of its letters.
\<close>

record assignee =
  Login :: string

definition namesLogin :: "string \<Rightarrow> bool" where
  "namesLogin k = (map upperByte k = ''LOGIN'')"

text \<open>
  The members of an object, decoded into the struct in their order: a string sets the
  field, \<open>null\<close> leaves it, any other value for \<open>login\<close> is a type mismatch (the result of
  \<open>Unmarshal\<close> is then an error); members with other keys are skipped.
\<close>

fun decodeMembers :: "assignee \<Rightarrow> (string \<times> json) list \<Rightarrow> assignee option" where
  "decodeMembers a [] = Some a"
| "decodeMembers a ((k, v) # kvs) =
     (if namesLogin k then
        (case v of
           JString str \<Rightarrow> decodeMembers (a\<lparr>Login := str\<rparr>) kvs
         | JNull \<Rightarrow> decodeMembers a kvs
         | _ \<Rightarrow> None)
      else decodeMembers a kvs)"

definition decodeStruct :: "json \<Rightarrow> assignee option" where
  "decodeStruct v = (case v of
      JNull \<Rightarrow> Some \<lparr>Login = []\<rparr>
    | JObject kvs \<Rightarrow> decodeMembers \<lparr>Login = []\<rparr> kvs
    | _ \<Rightarrow> None)"

fun decodeElems :: "json list \<Rightarrow> assignee list option" where
  "decodeElems [] = Some []"
| "decodeElems (v # vs) =
     (case decodeStruct v of
        None \<Rightarrow> None
      | Some a \<Rightarrow> (case decodeElems vs of None \<Rightarrow> None | Some as \<Rightarrow> Some (a # as)))"

definition decodeSlice :: "json \<Rightarrow> assignee list option" where
  "decodeSlice v = (case v of
      JNull \<Rightarrow> Some []
    | JArray vs \<Rightarrow> decodeElems vs
    | _ \<Rightarrow> None)"

text \<open>
  \<open>json.Unmarshal(data, &assignees)\<close> and \<open>json.Unmarshal(data, &assignee)\<close>: \<open>None\<close> is
  a non-nil error.
\<close>

definition UnmarshalSlice :: "string \<Rightarrow> assignee list option" where
  "UnmarshalSlice data = (case parseJSON data of None \<Rightarrow> None | Some v \<Rightarrow> decodeSlice v)"

definition UnmarshalStruct :: "string \<Rightarrow> assignee option" where
  "UnmarshalStruct data = (case parseJSON data of None \<Rightarrow> None | Some v \<Rightarrow> decodeStruct v)"

section \<open>\<open>parseUsers\<close>\<close>

text \<open>Lines 184 to 199: the assignees, or \<open>None\<close> where the function returns early.\<close>

definition parseAssignees :: "string \<Rightarrow> assignee list option" where
  "parseAssignees assigneesJSON =
     (case UnmarshalSlice assigneesJSON of
        Some assignees \<Rightarrow> Some assignees
      | None \<Rightarrow>
          (case UnmarshalStruct assigneesJSON of
             None \<Rightarrow> None
           | Some assignee \<Rightarrow> Some [assignee]))"

text \<open>Lines 201 to 207: the map \<open>loginSet\<close>; a missing key reads as \<open>false\<close>.\<close>

definition makeLoginSet :: "assignee list \<Rightarrow> string \<Rightarrow> bool" where
  "makeLoginSet assignees =
     foldl (\<lambda>loginSet assignee.
              if Login assignee \<noteq> [] then loginSet(Login assignee := True) else loginSet)
       (\<lambda>_. False) assignees"

text \<open>
  Lines 212 to 231: one turn of the loop over the pieces of the user map; \<open>result\<close> is
  the text written to the builder so far.
\<close>

definition parseUsers_pair :: "(string \<Rightarrow> bool) \<Rightarrow> string \<Rightarrow> string \<Rightarrow> string" where
  "parseUsers_pair loginSet result pair0 =
     (let pair = TrimSpace pair0 in
      if pair = [] then result
      else
        (let parts = SplitN2 pair (CHR '':'') in
         if length parts \<noteq> 2 then result
         else
           (let username = TrimSpace (parts ! 0);
                openID = TrimSpace (parts ! 1)
            in if loginSet username then result @ Sprintf_at openID username
               else result)))"

definition parseUsers :: "string \<Rightarrow> string \<Rightarrow> string" where
  "parseUsers userMaps assigneesJSON =
     (if userMaps = [] \<or> assigneesJSON = [] then []
      else
        (case parseAssignees assigneesJSON of
           None \<Rightarrow> []
         | Some assignees \<Rightarrow>
             foldl (parseUsers_pair (makeLoginSet assignees)) []
               (Split userMaps (CHR '',''))))"

section \<open>The resolver as the specification describes it\<close>

text \<open>
  These definitions follow the words of the specification, not the code; the theorems
  below compare \<open>parseUsers\<close> with them.

  \<open>spec_LoginSet\<close>: the set of the non-empty \<open>login\<close> values of the assignee records.
\<close>

definition spec_LoginSet :: "assignee list \<Rightarrow> string set" where
  "spec_LoginSet assignees = {l. l \<noteq> [] \<and> l \<in> Login ` set assignees}"

text \<open>
  \<open>spec_pair\<close>: a piece of the user map is trimmed; it is skipped if empty after the
  trim, and if it has no colon; otherwise it is split at its first colon, and the user
  name and the ID are trimmed.
\<close>

definition spec_pair :: "string \<Rightarrow> (string \<times> string) option" where
  "spec_pair piece =
     (let t = TrimSpace piece in
      if t = [] then None
      else if CHR '':'' \<notin> set t then None
      else Some (TrimSpace (takeWhile (\<lambda>c. c \<noteq> CHR '':'') t),
                 TrimSpace (tl (dropWhile (\<lambda>c. c \<noteq> CHR '':'') t))))"

text \<open>\<open>spec_pairs\<close>: the valid pairs (user name, ID) of a user map, in its order.\<close>

definition spec_pairs :: "string \<Rightarrow> (string \<times> string) list" where
  "spec_pairs userMaps = List.map_filter spec_pair (Split userMaps (CHR '',''))"

text \<open>
  \<open>spec_mentions\<close>: the pairs to mention: none when an input is empty or the assignees
  cannot be read, otherwise the valid pairs whose user name is in the login set.
\<close>

definition spec_mentions :: "string \<Rightarrow> string \<Rightarrow> (string \<times> string) list" where
  "spec_mentions userMaps assigneesJSON =
     (if userMaps = [] \<or> assigneesJSON = [] then []
      else
        (case parseAssignees assigneesJSON of
           None \<Rightarrow> []
         | Some assignees \<Rightarrow>
             filter (\<lambda>p. fst p \<in> spec_LoginSet assignees) (spec_pairs userMaps)))"

section \<open>Properties of \<open>getEnv\<close>\<close>

lemma isASCII_ReplaceAll:
  "isASCII key \<Longrightarrow> isASCII (ReplaceAll key (CHR ''-'') (CHR ''_''))"
  by (induction key) (auto simp: isASCII_def ReplaceAll_def)

text \<open>
  C8. \<open>getEnv\<close> first reads the wrapped name (\<open>INPUT_\<close> followed by the key with hyphens
  replaced by underscores, uppercased); a non-empty value there is the result, whatever
  the plain name holds. Otherwise the result is the value of the plain uppercased name,
  which is the empty string when that is unset or empty too. For an ASCII key the wrapped
  name is \<open>INPUT_\<close> followed by the key mapped byte by byte.
\<close>

theorem getEnv_two_tier:
  "(Getenv env (''INPUT_'' @ ToUpper U (ReplaceAll key (CHR ''-'') (CHR ''_''))) \<noteq> [] \<longrightarrow>
      getEnv U env key = Getenv env (''INPUT_'' @ ToUpper U (ReplaceAll key (CHR ''-'') (CHR ''_''))))
   \<and> (Getenv env (''INPUT_'' @ ToUpper U (ReplaceAll key (CHR ''-'') (CHR ''_''))) = [] \<longrightarrow>
      getEnv U env key = Getenv env (ToUpper U key))
   \<and> (Getenv env (''INPUT_'' @ ToUpper U (ReplaceAll key (CHR ''-'') (CHR ''_''))) = [] \<and>
      Getenv env (ToUpper U key) = [] \<longrightarrow> getEnv U env key = [])
   \<and> (isASCII key \<longrightarrow>
      ''INPUT_'' @ ToUpper U (ReplaceAll key (CHR ''-'') (CHR ''_''))
        = ''INPUT_'' @ map (\<lambda>c. if c = CHR ''-'' then CHR ''_'' else upperByte c) key)"
proof -
  have "isASCII key \<Longrightarrow>
      ToUpper U (ReplaceAll key (CHR ''-'') (CHR ''_''))
        = map (\<lambda>c. if c = CHR ''-'' then CHR ''_'' else upperByte c) key"
    using isASCII_ReplaceAll [of key]
    by (simp add: ToUpper_def ReplaceAll_def upperByte_def)
  then show ?thesis
    by (simp add: getEnv_def Let_def)
qed

theorem getEnv_two_tier_witness:
  "Getenv [''INPUT_BOT_TOKEN'' \<mapsto> ''t1'', ''BOT_TOKEN'' \<mapsto> ''t2'']
       (''INPUT_'' @ ToUpper id (ReplaceAll ''bot_token'' (CHR ''-'') (CHR ''_''))) \<noteq> []
   \<and> getEnv id [''INPUT_BOT_TOKEN'' \<mapsto> ''t1'', ''BOT_TOKEN'' \<mapsto> ''t2''] ''bot_token'' = ''t1''
   \<and> Getenv [''INPUT_MY_KEY'' \<mapsto> [], ''MY-KEY'' \<mapsto> ''v'']
       (''INPUT_'' @ ToUpper id (ReplaceAll ''my-key'' (CHR ''-'') (CHR ''_''))) = []
   \<and> getEnv id [''INPUT_MY_KEY'' \<mapsto> [], ''MY-KEY'' \<mapsto> ''v''] ''my-key'' = ''v''
   \<and> Getenv Map.empty (''INPUT_'' @ ToUpper id (ReplaceAll ''msg_type'' (CHR ''-'') (CHR ''_''))) = []
   \<and> Getenv Map.empty (ToUpper id ''msg_type'') = []
   \<and> getEnv id Map.empty ''msg_type'' = []
   \<and> isASCII ''my-key''
   \<and> ''INPUT_'' @ ToUpper id (ReplaceAll ''my-key'' (CHR ''-'') (CHR ''_'')) = ''INPUT_MY_KEY''"
  using getEnv_two_tier [of "[''INPUT_BOT_TOKEN'' \<mapsto> ''t1'', ''BOT_TOKEN'' \<mapsto> ''t2'']" id "''bot_token''"]
        getEnv_two_tier [of "[''INPUT_MY_KEY'' \<mapsto> [], ''MY-KEY'' \<mapsto> ''v'']" id "''my-key''"]
        getEnv_two_tier [of Map.empty id "''msg_type''"]
  by (simp add: Getenv_def ToUpper_def ReplaceAll_def isASCII_def upperByte_def char_of_eq_iff)

section \<open>The response check\<close>

lemma fmtInt_examples: "fmtInt 0 = ''0''" "fmtInt 19001 = ''19001''" "fmtInt (- 70) = ''-70''"
  by (simp_all add: fmtInt_def fmtNat.simps char_of_eq_iff)

text \<open>
  C9. At the response check, the run ends with status 0 exactly when the HTTP status is
  200 and the code of the decoded body is 0; it then has written the success notice to
  standard output and nothing to standard error. In every other case it writes to
  standard error one line that holds the code and the message of the body, and ends with
  status 1.
\<close>

theorem response_check:
  "(exitStatus (main_checkResponse sc r) = 0 \<longleftrightarrow> sc = 200 \<and> Code r = 0)
   \<and> (sc = 200 \<and> Code r = 0 \<longrightarrow>
        main_checkResponse sc r
          = \<lparr>stdout = ''::notice::Message sent successfully'' @ [CHR 0x0A], stderr = [],
             exitStatus = 0\<rparr>)
   \<and> (sc \<noteq> 200 \<or> Code r \<noteq> 0 \<longrightarrow>
        main_checkResponse sc r
          = \<lparr>stdout = [],
             stderr = ''::error::Request failed with code '' @ fmtInt (Code r) @ '': '' @ Msg r
                       @ [CHR 0x0A],
             exitStatus = 1\<rparr>)"
  by (simp add: main_checkResponse_def)

theorem response_check_witness:
  "main_checkResponse 200 \<lparr>Code = 0, Msg = ''ok'', Data = ()\<rparr>
     = \<lparr>stdout = ''::notice::Message sent successfully'' @ [CHR 0x0A], stderr = [], exitStatus = 0\<rparr>
   \<and> main_checkResponse 200 \<lparr>Code = 19001, Msg = ''bad token'', Data = ()\<rparr>
     = \<lparr>stdout = [], stderr = ''::error::Request failed with code 19001: bad token'' @ [CHR 0x0A],
        exitStatus = 1\<rparr>
   \<and> main_checkResponse 500 \<lparr>Code = 0, Msg = ''ok'', Data = ()\<rparr>
     = \<lparr>stdout = [], stderr = ''::error::Request failed with code 0: ok'' @ [CHR 0x0A],
        exitStatus = 1\<rparr>"
  using response_check [of 200 "\<lparr>Code = 0, Msg = ''ok'', Data = ()\<rparr>"]
    response_check [of 200 "\<lparr>Code = 19001, Msg = ''bad token'', Data = ()\<rparr>"]
    response_check [of 500 "\<lparr>Code = 0, Msg = ''ok'', Data = ()\<rparr>"]
  by (simp add: fmtInt_examples)

section \<open>\<open>parseUsers\<close> against the specification\<close>

lemma makeLoginSet_foldl:
  "foldl (\<lambda>loginSet assignee.
              if Login assignee \<noteq> [] then loginSet(Login assignee := True) else loginSet) f as u
     \<longleftrightarrow> f u \<or> (u \<noteq> [] \<and> u \<in> Login ` set as)"
  by (induction as arbitrary: f) auto

lemma makeLoginSet_iff: "makeLoginSet as u \<longleftrightarrow> u \<in> spec_LoginSet as"
  by (simp add: makeLoginSet_def makeLoginSet_foldl spec_LoginSet_def)

lemma parseUsers_pair_spec:
  "parseUsers_pair ls result piece =
     (case spec_pair piece of
        None \<Rightarrow> result
      | Some (u, i) \<Rightarrow> if ls u then result @ Sprintf_at i u else result)"
  by (simp add: parseUsers_pair_def spec_pair_def SplitN2_def Let_def)

lemma parseUsers_pair_None: "spec_pair piece = None \<Longrightarrow> parseUsers_pair ls result piece = result"
  by (simp add: parseUsers_pair_spec)

lemma parseUsers_pair_Some:
  "spec_pair piece = Some (u, i) \<Longrightarrow>
     parseUsers_pair ls result piece = (if ls u then result @ Sprintf_at i u else result)"
  by (simp add: parseUsers_pair_spec)

text \<open>
  The loop over the pieces appends, to what the builder holds, the tokens of the valid
  pairs whose user name is in the login set, in the order of the pieces.
\<close>

lemma parseUsers_loop:
  "foldl (parseUsers_pair ls) acc pieces =
     acc @ concat (map (\<lambda>p. Sprintf_at (snd p) (fst p))
                    (filter (\<lambda>p. ls (fst p)) (List.map_filter spec_pair pieces)))"
proof (induction pieces arbitrary: acc)
  case Nil
  show ?case by (simp add: List.map_filter_simps)
next
  case (Cons p ps)
  show ?case
  proof (cases "spec_pair p")
    case None
    then show ?thesis
      by (simp add: Cons.IH parseUsers_pair_None List.map_filter_simps)
  next
    case (Some ui)
    obtain u i where ui: "ui = (u, i)" by (cases ui)
    with Some show ?thesis
      by (simp add: Cons.IH parseUsers_pair_Some List.map_filter_simps)
  qed
qed

lemma parseUsers_mentions:
  "parseUsers m a = concat (map (\<lambda>p. Sprintf_at (snd p) (fst p)) (spec_mentions m a))"
  by (auto simp: parseUsers_def spec_mentions_def spec_pairs_def parseUsers_loop
        makeLoginSet_iff split: option.splits)

lemma spec_mentions_subseq: "subseq (spec_mentions m a) (spec_pairs m)"
  by (simp add: spec_mentions_def split: option.splits)

lemma parseUsers_assignee_order:
  assumes "a \<noteq> []" "a' \<noteq> []" "parseAssignees a = Some as" "parseAssignees a' = Some as'"
    and "set as = set as'"
  shows "parseUsers m a = parseUsers m a'"
proof -
  from assms(5) have "spec_LoginSet as = spec_LoginSet as'"
    by (simp add: spec_LoginSet_def)
  with assms(1-4) show ?thesis
    by (simp add: parseUsers_mentions spec_mentions_def)
qed

text \<open>
  C1. For every user map and every assignees text, the output of \<open>parseUsers\<close> is the
  concatenation of the tokens of the pairs to mention, and these pairs are a subsequence
  of the valid pairs of the user map: the tokens stand in the order of the user map. Two
  assignees texts that decode to the same records in different orders give the same
  output. For the map \<open>a:1,b:2,c:3\<close> and the assignees \<open>b\<close>, \<open>a\<close> the output mentions
  \<open>a\<close> first.
\<close>

theorem parseUsers_mapping_order:
  \<open>parseUsers m a = concat (map (\<lambda>p. Sprintf_at (snd p) (fst p)) (spec_mentions m a))
   \<and> subseq (spec_mentions m a) (spec_pairs m)
   \<and> (a \<noteq> [] \<and> a' \<noteq> [] \<and> parseAssignees a = Some as \<and> parseAssignees a' = Some as'
        \<and> set as = set as' \<longrightarrow> parseUsers m a = parseUsers m a')
   \<and> parseUsers ''a:1,b:2,c:3'' ''[{"login":"b"},{"login":"a"}]''
       = ''<at user_id="1">a</at> <at user_id="2">b</at> ''\<close>
proof -
  have \<open>parseUsers ''a:1,b:2,c:3'' ''[{"login":"b"},{"login":"a"}]''
       = ''<at user_id="1">a</at> <at user_id="2">b</at> ''\<close>
    by code_simp
  then show ?thesis
    using parseUsers_mentions [of m a] spec_mentions_subseq [of m a]
      parseUsers_assignee_order [of a a' as as' m]
    by simp
qed

theorem parseUsers_mapping_order_witness:
  \<open>''[{"login":"b"},{"login":"a"}]'' \<noteq> [] \<and> ''[{"login":"a"},{"login":"b"}]'' \<noteq> []
   \<and> parseAssignees ''[{"login":"b"},{"login":"a"}]'' = Some [\<lparr>Login = ''b''\<rparr>, \<lparr>Login = ''a''\<rparr>]
   \<and> parseAssignees ''[{"login":"a"},{"login":"b"}]'' = Some [\<lparr>Login = ''a''\<rparr>, \<lparr>Login = ''b''\<rparr>]
   \<and> set [\<lparr>Login = ''b''\<rparr>, \<lparr>Login = ''a''\<rparr>] = set [\<lparr>Login = ''a''\<rparr>, \<lparr>Login = ''b''\<rparr>]
   \<and> parseUsers ''a:1,b:2,c:3'' ''[{"login":"b"},{"login":"a"}]''
       = parseUsers ''a:1,b:2,c:3'' ''[{"login":"a"},{"login":"b"}]''
   \<and> parseUsers ''a:1,b:2,c:3'' ''[{"login":"a"},{"login":"b"}]''
       = ''<at user_id="1">a</at> <at user_id="2">b</at> ''\<close>
proof -
  have h: \<open>parseAssignees ''[{"login":"b"},{"login":"a"}]'' = Some [\<lparr>Login = ''b''\<rparr>, \<lparr>Login = ''a''\<rparr>]\<close>
    and h': \<open>parseAssignees ''[{"login":"a"},{"login":"b"}]'' = Some [\<lparr>Login = ''a''\<rparr>, \<lparr>Login = ''b''\<rparr>]\<close>
    by code_simp+
  have s: "set [\<lparr>Login = ''b''\<rparr>, \<lparr>Login = ''a''\<rparr>] = set [\<lparr>Login = ''a''\<rparr>, \<lparr>Login = ''b''\<rparr>]"
    by auto
  have ne: \<open>''[{"login":"b"},{"login":"a"}]'' \<noteq> [] \<and> ''[{"login":"a"},{"login":"b"}]'' \<noteq> []\<close>
    by simp
  note inst = parseUsers_mapping_order [of "''a:1,b:2,c:3''" \<open>''[{"login":"b"},{"login":"a"}]''\<close>
        \<open>''[{"login":"a"},{"login":"b"}]''\<close> "[\<lparr>Login = ''b''\<rparr>, \<lparr>Login = ''a''\<rparr>]"
        "[\<lparr>Login = ''a''\<rparr>, \<lparr>Login = ''b''\<rparr>]"]
  from inst ne h h' s
  have eq: \<open>parseUsers ''a:1,b:2,c:3'' ''[{"login":"b"},{"login":"a"}]''
       = parseUsers ''a:1,b:2,c:3'' ''[{"login":"a"},{"login":"b"}]''\<close>
    by blast
  moreover from inst
  have \<open>parseUsers ''a:1,b:2,c:3'' ''[{"login":"b"},{"login":"a"}]''
       = ''<at user_id="1">a</at> <at user_id="2">b</at> ''\<close>
    by blast
  ultimately have \<open>parseUsers ''a:1,b:2,c:3'' ''[{"login":"a"},{"login":"b"}]''
       = ''<at user_id="1">a</at> <at user_id="2">b</at> ''\<close>
    by simp
  with ne h h' s eq show ?thesis by blast
qed

lemma splitFrom_append:
  "splitFrom sep cur (xs @ sep # ys) = splitFrom sep cur xs @ splitFrom sep [] ys"
  by (induction xs arbitrary: cur) auto

lemma splitFrom_no_sep: "sep \<notin> set p \<Longrightarrow> splitFrom sep cur p = [cur @ p]"
  by (induction p arbitrary: cur) auto

lemma Split_append: "Split (xs @ sep # ys) sep = Split xs sep @ Split ys sep"
  by (simp add: Split_def splitFrom_append)

lemma Split_no_sep: "sep \<notin> set p \<Longrightarrow> Split p sep = [p]"
  by (simp add: Split_def splitFrom_no_sep)

lemma takeWhile_first: "c \<notin> set xs \<Longrightarrow> takeWhile (\<lambda>x. x \<noteq> c) (xs @ c # ys) = xs"
  by (induction xs) auto

lemma dropWhile_first: "c \<notin> set xs \<Longrightarrow> dropWhile (\<lambda>x. x \<noteq> c) (xs @ c # ys) = c # ys"
  by (induction xs) auto

lemma spec_pair_skipped:
  "TrimSpace piece = [] \<or> CHR '':'' \<notin> set (TrimSpace piece) \<Longrightarrow> spec_pair piece = None"
  by (auto simp: spec_pair_def Let_def)

lemma spec_pair_first_colon:
  assumes "TrimSpace piece = name @ CHR '':'' # ident" and "CHR '':'' \<notin> set name"
  shows "spec_pair piece = Some (TrimSpace name, TrimSpace ident)"
  using assms by (simp add: spec_pair_def Let_def takeWhile_first dropWhile_first)

lemma TrimSpace_Nil: "TrimSpace [] = []"
  by code_simp

lemma spec_pair_Nil: "spec_pair [] = None"
  by (simp add: spec_pair_def TrimSpace_Nil)

text \<open>
  The test for an empty user map at the head of \<open>parseUsers\<close> changes nothing: the loop
  over the one empty piece of an empty user map writes nothing.
\<close>

lemma parseUsers_pieces:
  "parseUsers m a =
     (if a = [] then []
      else (case parseAssignees a of
              None \<Rightarrow> []
            | Some as \<Rightarrow> foldl (parseUsers_pair (makeLoginSet as)) [] (Split m (CHR '',''))))"
  by (simp add: parseUsers_def Split_def parseUsers_pair_None spec_pair_Nil split: option.splits)

lemma parseUsers_skip:
  assumes "CHR '','' \<notin> set piece" and "spec_pair piece = None"
  shows "parseUsers (m1 @ '','' @ piece @ '','' @ m2) a = parseUsers (m1 @ '','' @ m2) a"
    and "parseUsers (piece @ '','' @ m2) a = parseUsers m2 a"
    and "parseUsers (m1 @ '','' @ piece) a = parseUsers m1 a"
proof -
  have 1: "Split (m1 @ '','' @ piece @ '','' @ m2) (CHR '','')
          = Split m1 (CHR '','') @ piece # Split m2 (CHR '','')"
    using assms(1) Split_append [of m1 "CHR '',''" "piece @ '','' @ m2"]
      Split_append [of piece "CHR '',''" m2]
    by (simp add: Split_no_sep)
  have 2: "Split (m1 @ '','' @ m2) (CHR '','') = Split m1 (CHR '','') @ Split m2 (CHR '','')"
    using Split_append [of m1 "CHR '',''" m2] by simp
  have 3: "Split (piece @ '','' @ m2) (CHR '','') = piece # Split m2 (CHR '','')"
    using assms(1) Split_append [of piece "CHR '',''" m2] by (simp add: Split_no_sep)
  have 4: "Split (m1 @ '','' @ piece) (CHR '','') = Split m1 (CHR '','') @ [piece]"
    using assms(1) Split_append [of m1 "CHR '',''" piece] by (simp add: Split_no_sep)
  show "parseUsers (m1 @ '','' @ piece @ '','' @ m2) a = parseUsers (m1 @ '','' @ m2) a"
    using assms(2) 1 2 by (simp add: parseUsers_pieces parseUsers_pair_None split: option.splits)
  show "parseUsers (piece @ '','' @ m2) a = parseUsers m2 a"
    using assms(2) 3 by (simp add: parseUsers_pieces parseUsers_pair_None split: option.splits)
  show "parseUsers (m1 @ '','' @ piece) a = parseUsers m1 a"
    using assms(2) 4 by (simp add: parseUsers_pieces parseUsers_pair_None split: option.splits)
qed

lemma concat_tokens_end:
  assumes "ps \<noteq> []"
  shows "\<exists>pre. concat (map (\<lambda>p. Sprintf_at (snd p) (fst p)) ps) = pre @ ''</at> ''"
proof -
  from assms obtain qs q where "ps = qs @ [q]"
    by (cases ps rule: rev_cases) auto
  then have "concat (map (\<lambda>p. Sprintf_at (snd p) (fst p)) ps)
      = (concat (map (\<lambda>p. Sprintf_at (snd p) (fst p)) qs)
          @ ''<at user_id='' @ [CHR 0x22] @ snd q @ [CHR 0x22] @ ''>'' @ fst q) @ ''</at> ''"
    by (simp add: Sprintf_at_def)
  then show ?thesis by blast
qed

lemma parseUsers_empty_or_end:
  "parseUsers m a = [] \<or> (\<exists>pre. parseUsers m a = pre @ ''</at> '')"
  using concat_tokens_end [of "spec_mentions m a"]
  by (cases "spec_mentions m a = []") (auto simp: parseUsers_mentions)

lemma parseUsers_tokens:
  "\<exists>toks. parseUsers m a = concat toks \<and>
     (\<forall>t \<in> set toks. \<exists>i u. t = ''<at user_id='' @ [CHR 0x22] @ i @ [CHR 0x22] @ ''>'' @ u @ ''</at> '')"
proof -
  let ?toks = "map (\<lambda>p. Sprintf_at (snd p) (fst p)) (spec_mentions m a)"
  have "parseUsers m a = concat ?toks" by (rule parseUsers_mentions)
  moreover have "\<forall>t \<in> set ?toks. \<exists>i u. t = ''<at user_id='' @ [CHR 0x22] @ i @ [CHR 0x22] @ ''>'' @ u @ ''</at> ''"
    by (auto simp: Sprintf_at_def)
  ultimately show ?thesis by blast
qed

lemma ends_one_space:
  assumes "s = pre @ ''</at> ''"
  shows "last s = CHR '' '' \<and> last (butlast s) \<noteq> CHR '' ''"
proof -
  have "s = (pre @ ''</at'') @ ''> ''" using assms by simp
  then show ?thesis by (simp add: butlast_append del: append_assoc)
qed

lemma parseUsers_no_assignees: "parseAssignees a = None \<Longrightarrow> parseUsers m a = []"
  by (simp add: parseUsers_def)

text \<open>
  C3. When the assignees text decodes neither as an array of records nor as a single
  record, \<open>parseUsers\<close> returns the empty string, for every user map; the function has
  no other result than a string. \<open>{not json\<close> is such a text.
\<close>

theorem parseUsers_malformed_assignees:
  \<open>(UnmarshalSlice a = None \<and> UnmarshalStruct a = None \<longrightarrow> parseUsers m a = [])
   \<and> parseUsers m ''{not json'' = []\<close>
proof -
  have \<open>parseAssignees ''{not json'' = None\<close> by code_simp
  then show ?thesis
    by (auto simp: parseAssignees_def intro: parseUsers_no_assignees)
qed

theorem parseUsers_malformed_assignees_witness:
  \<open>UnmarshalSlice ''[1, {"login":"a"}]'' = None \<and> UnmarshalStruct ''[1, {"login":"a"}]'' = None
   \<and> parseUsers ''a:1'' ''[1, {"login":"a"}]'' = []\<close>
proof -
  have h: \<open>UnmarshalSlice ''[1, {"login":"a"}]'' = None \<and> UnmarshalStruct ''[1, {"login":"a"}]'' = None\<close>
    by code_simp
  with parseUsers_malformed_assignees [of \<open>''[1, {"login":"a"}]''\<close> "''a:1''"]
  show ?thesis by simp
qed

text \<open>
  C4. One piece of the user map is processed as follows. It is trimmed; a piece that is
  empty after the trim, or has no colon, leaves the result as it is. Otherwise the
  trimmed piece is split at its first colon only (what follows may hold further colons),
  both parts are trimmed, and the trimmed user name is looked up in the login set and
  written with the trimmed ID. A skipped piece can be removed from the user map, with its
  comma, without changing the output: between two commas, at the front and at the end.
\<close>

theorem user_map_piece:
  \<open>(TrimSpace piece = [] \<longrightarrow> parseUsers_pair ls result piece = result)
   \<and> (CHR '':'' \<notin> set (TrimSpace piece) \<longrightarrow> parseUsers_pair ls result piece = result)
   \<and> (TrimSpace piece = name @ CHR '':'' # ident \<and> CHR '':'' \<notin> set name \<longrightarrow>
        parseUsers_pair ls result piece =
          (if ls (TrimSpace name) then result @ Sprintf_at (TrimSpace ident) (TrimSpace name)
           else result))
   \<and> (CHR '','' \<notin> set piece \<and> (TrimSpace piece = [] \<or> CHR '':'' \<notin> set (TrimSpace piece)) \<longrightarrow>
        parseUsers (m1 @ '','' @ piece @ '','' @ m2) a = parseUsers (m1 @ '','' @ m2) a
        \<and> parseUsers (piece @ '','' @ m2) a = parseUsers m2 a
        \<and> parseUsers (m1 @ '','' @ piece) a = parseUsers m1 a)\<close>
  using spec_pair_skipped [of piece] spec_pair_first_colon [of piece name ident]
    parseUsers_skip(1) [of piece m1 m2 a] parseUsers_skip(2) [of piece m2 a]
    parseUsers_skip(3) [of piece m1 a]
  by (auto simp: parseUsers_pair_None parseUsers_pair_Some)

theorem user_map_piece_witness:
  \<open>TrimSpace ''   '' = []
   \<and> parseUsers_pair (\<lambda>u. u = ''a'') ''r'' ''   '' = ''r''
   \<and> CHR '':'' \<notin> set (TrimSpace '' b '')
   \<and> parseUsers_pair (\<lambda>u. u = ''a'') ''r'' '' b '' = ''r''
   \<and> TrimSpace '' a : 1:2 '' = ''a '' @ CHR '':'' # '' 1:2'' \<and> CHR '':'' \<notin> set ''a ''
   \<and> parseUsers_pair (\<lambda>u. u = ''a'') ''r'' '' a : 1:2 '' = ''r<at user_id="1:2">a</at> ''
   \<and> CHR '','' \<notin> set '' b ''
   \<and> parseUsers ('' a : 1:2 '' @ '','' @ '' b '' @ '','' @ ''a:3'') ''{"login":"a"}''
      = parseUsers ('' a : 1:2 '' @ '','' @ ''a:3'') ''{"login":"a"}''
   \<and> parseUsers ('' b '' @ '','' @ ''a:3'') ''{"login":"a"}'' = parseUsers ''a:3'' ''{"login":"a"}''
   \<and> parseUsers ('' a : 1:2 '' @ '','' @ '' b '') ''{"login":"a"}''
      = parseUsers '' a : 1:2 '' ''{"login":"a"}''
   \<and> parseUsers '' a : 1:2 , b ,a:3'' ''{"login":"a"}''
      = ''<at user_id="1:2">a</at> <at user_id="3">a</at> ''\<close>
proof -
  have t1: "TrimSpace ''   '' = []" and t2: "TrimSpace '' b '' = ''b''"
    and t3: "TrimSpace '' a : 1:2 '' = ''a '' @ CHR '':'' # '' 1:2''"
    and t4: "TrimSpace ''a '' = ''a''" and t5: "TrimSpace '' 1:2'' = ''1:2''"
    by code_simp+
  have e: \<open>parseUsers '' a : 1:2 , b ,a:3'' ''{"login":"a"}''
      = ''<at user_id="1:2">a</at> <at user_id="3">a</at> ''\<close>
    by code_simp
  show ?thesis
    using user_map_piece [of "''   ''" "\<lambda>u. u = ''a''" "''r''" "[]" "[]" "[]" "[]" "[]"]
      user_map_piece [of "'' b ''" "\<lambda>u. u = ''a''" "''r''" "[]" "[]" "'' a : 1:2 ''" "''a:3''"
        \<open>''{"login":"a"}''\<close>]
      user_map_piece [of "'' a : 1:2 ''" "\<lambda>u. u = ''a''" "''r''" "''a ''" "'' 1:2''" "[]" "[]" "[]"]
      t1 t2 t3 t4 t5 e
    by (simp add: Sprintf_at_def)
qed

text \<open>
  C5. A turn of the loop either leaves the result as it is or appends one token, which
  is the opening tag with the ID between double quotes, the user name, the closing tag
  and one space; the ID and the user name are the trimmed parts of the piece, byte for
  byte. The whole output is the concatenation of such tokens. A double quote, \<open><\<close>, \<open>>\<close>
  or \<open>&\<close> in either part is written as it is.
\<close>

theorem mention_token_shape:
  \<open>(parseUsers_pair ls result piece = result
      \<or> (\<exists>u i. spec_pair piece = Some (u, i) \<and> ls u \<and>
            parseUsers_pair ls result piece
              = result @ ''<at user_id='' @ [CHR 0x22] @ i @ [CHR 0x22] @ ''>'' @ u @ ''</at> ''))
   \<and> parseUsers m a
       = concat (map (\<lambda>p. ''<at user_id='' @ [CHR 0x22] @ snd p @ [CHR 0x22] @ ''>'' @ fst p @ ''</at> '')
                  (spec_mentions m a))
   \<and> parseUsers ''a"<b>&:x"<y>&'' (''[{"login":"a'' @ [CHR 0x5C] @ ''"<b>&"}]'')
       = ''<at user_id="x"<y>&">a"<b>&</at> ''\<close>
proof -
  have 1: \<open>parseUsers_pair ls result piece = result
      \<or> (\<exists>u i. spec_pair piece = Some (u, i) \<and> ls u \<and>
            parseUsers_pair ls result piece
              = result @ ''<at user_id='' @ [CHR 0x22] @ i @ [CHR 0x22] @ ''>'' @ u @ ''</at> '')\<close>
    by (cases "spec_pair piece") (auto simp: parseUsers_pair_spec Sprintf_at_def)
  have 2: \<open>parseUsers m a
       = concat (map (\<lambda>p. ''<at user_id='' @ [CHR 0x22] @ snd p @ [CHR 0x22] @ ''>'' @ fst p @ ''</at> '')
                  (spec_mentions m a))\<close>
    using parseUsers_mentions [of m a] by (simp add: Sprintf_at_def)
  have 3: \<open>parseUsers ''a"<b>&:x"<y>&'' (''[{"login":"a'' @ [CHR 0x5C] @ ''"<b>&"}]'')
       = ''<at user_id="x"<y>&">a"<b>&</at> ''\<close>
    by code_simp
  from 1 2 3 show ?thesis by blast
qed

text \<open>
  C6. When the assignees have been read and a user name is in the login set, every valid
  pair of the user map with that user name is among the pairs mentioned, with its own
  ID and in its place: nothing removes a second occurrence. For the map \<open>a:1,a:2\<close> and
  the assignee \<open>a\<close> the output holds two tokens for \<open>a\<close>.
\<close>

theorem duplicate_usernames:
  \<open>(m \<noteq> [] \<and> a \<noteq> [] \<and> parseAssignees a = Some as \<and> u \<in> spec_LoginSet as \<longrightarrow>
      parseUsers m a = concat (map (\<lambda>p. Sprintf_at (snd p) (fst p)) (spec_mentions m a))
      \<and> filter (\<lambda>p. fst p = u) (spec_mentions m a) = filter (\<lambda>p. fst p = u) (spec_pairs m))
   \<and> parseUsers ''a:1,a:2'' ''[{"login":"a"}]''
       = ''<at user_id="1">a</at> <at user_id="2">a</at> ''\<close>
proof -
  have \<open>parseUsers ''a:1,a:2'' ''[{"login":"a"}]''
       = ''<at user_id="1">a</at> <at user_id="2">a</at> ''\<close>
    by code_simp
  moreover have "filter (\<lambda>p. fst p = u) (filter (\<lambda>p. fst p \<in> spec_LoginSet as) ps)
      = filter (\<lambda>p. fst p = u) ps" if "u \<in> spec_LoginSet as" for ps :: "(string \<times> string) list"
    using that by (induction ps) auto
  ultimately show ?thesis
    using parseUsers_mentions [of m a] by (simp add: spec_mentions_def)
qed

theorem duplicate_usernames_witness:
  \<open>''a:1,b:7,a:2'' \<noteq> [] \<and> ''[{"login":"a"}]'' \<noteq> []
   \<and> parseAssignees ''[{"login":"a"}]'' = Some [\<lparr>Login = ''a''\<rparr>]
   \<and> ''a'' \<in> spec_LoginSet [\<lparr>Login = ''a''\<rparr>]
   \<and> spec_pairs ''a:1,b:7,a:2'' = [(''a'', ''1''), (''b'', ''7''), (''a'', ''2'')]
   \<and> filter (\<lambda>p. fst p = ''a'') (spec_mentions ''a:1,b:7,a:2'' ''[{"login":"a"}]'')
       = [(''a'', ''1''), (''a'', ''2'')]\<close>
proof -
  have h: \<open>parseAssignees ''[{"login":"a"}]'' = Some [\<lparr>Login = ''a''\<rparr>]\<close>
    and p: \<open>spec_pairs ''a:1,b:7,a:2'' = [(''a'', ''1''), (''b'', ''7''), (''a'', ''2'')]\<close>
    by code_simp+
  have l: "''a'' \<in> spec_LoginSet [\<lparr>Login = ''a''\<rparr>]"
    by (simp add: spec_LoginSet_def)
  show ?thesis
    using duplicate_usernames [of "''a:1,b:7,a:2''" \<open>''[{"login":"a"}]''\<close> "[\<lparr>Login = ''a''\<rparr>]" "''a''"]
      h p l
    by simp
qed

text \<open>
  C7. When no valid pair of the user map has its user name in the login set, as when the
  login set is empty, the output is the empty string. An empty array has an empty login
  set, and so has a record whose login is empty.
\<close>

theorem parseUsers_no_match:
  \<open>(parseAssignees a = Some as \<and> (\<forall>p \<in> set (spec_pairs m). fst p \<notin> spec_LoginSet as) \<longrightarrow>
      parseUsers m a = [])
   \<and> (parseAssignees a = Some as \<and> spec_LoginSet as = {} \<longrightarrow> parseUsers m a = [])
   \<and> parseUsers m ''[]'' = []
   \<and> parseUsers m ''[{"login":""}]'' = []\<close>
proof -
  have 1: "parseUsers m a = []"
    if "parseAssignees a = Some as" and "\<forall>p \<in> set (spec_pairs m). fst p \<notin> spec_LoginSet as"
    for m a as
  proof -
    from that have "spec_mentions m a = []"
      by (auto simp: spec_mentions_def filter_empty_conv)
    then show ?thesis by (simp add: parseUsers_mentions)
  qed
  have e1: \<open>parseAssignees ''[]'' = Some []\<close>
    and e2: \<open>parseAssignees ''[{"login":""}]'' = Some [\<lparr>Login = []\<rparr>]\<close>
    by code_simp+
  have "parseUsers m ''[]'' = []"
    by (rule 1 [OF e1]) (simp add: spec_LoginSet_def)
  moreover have \<open>parseUsers m ''[{"login":""}]'' = []\<close>
    by (rule 1 [OF e2]) (simp add: spec_LoginSet_def)
  ultimately show ?thesis
    using 1 [of a as m] by auto
qed

theorem parseUsers_no_match_witness:
  \<open>parseAssignees ''[{"login":"c"},{"login":""}]'' = Some [\<lparr>Login = ''c''\<rparr>, \<lparr>Login = []\<rparr>]
   \<and> spec_pairs ''a:1, b:2'' = [(''a'', ''1''), (''b'', ''2'')]
   \<and> ''a'' \<notin> spec_LoginSet [\<lparr>Login = ''c''\<rparr>, \<lparr>Login = []\<rparr>]
   \<and> ''b'' \<notin> spec_LoginSet [\<lparr>Login = ''c''\<rparr>, \<lparr>Login = []\<rparr>]
   \<and> parseUsers ''a:1, b:2'' ''[{"login":"c"},{"login":""}]'' = []
   \<and> parseAssignees ''null'' = Some [] \<and> spec_LoginSet [] = {}
   \<and> parseUsers ''a:1, b:2'' ''null'' = []\<close>
proof -
  have h: \<open>parseAssignees ''[{"login":"c"},{"login":""}]'' = Some [\<lparr>Login = ''c''\<rparr>, \<lparr>Login = []\<rparr>]\<close>
    and p: \<open>spec_pairs ''a:1, b:2'' = [(''a'', ''1''), (''b'', ''2'')]\<close>
    and n: \<open>parseAssignees ''null'' = Some []\<close>
    by code_simp+
  show ?thesis
    using parseUsers_no_match [of \<open>''[{"login":"c"},{"login":""}]''\<close>
        "[\<lparr>Login = ''c''\<rparr>, \<lparr>Login = []\<rparr>]" "''a:1, b:2''"]
      parseUsers_no_match [of "''null''" "[]" "''a:1, b:2''"] h p n
    by (simp add: spec_LoginSet_def)
qed

text \<open>
  C10. The output of \<open>parseUsers\<close> is empty or ends with \<open></at>\<close> and a space, so that a
  non-empty output ends with exactly one space; and it is a concatenation of whole
  tokens, each from its opening tag to the space after its closing tag.
\<close>

theorem parseUsers_output_whole_tokens:
  \<open>(parseUsers m a = [] \<or> (\<exists>pre. parseUsers m a = pre @ ''</at> ''))
   \<and> (parseUsers m a \<noteq> [] \<longrightarrow>
        last (parseUsers m a) = CHR '' '' \<and> last (butlast (parseUsers m a)) \<noteq> CHR '' '')
   \<and> (\<exists>toks. parseUsers m a = concat toks \<and>
        (\<forall>t \<in> set toks. \<exists>i u.
            t = ''<at user_id='' @ [CHR 0x22] @ i @ [CHR 0x22] @ ''>'' @ u @ ''</at> ''))\<close>
  using parseUsers_empty_or_end [of m a] parseUsers_tokens [of m a] ends_one_space [of "parseUsers m a"]
  by blast

theorem parseUsers_output_whole_tokens_witness:
  \<open>parseUsers ''a:1,b:2'' ''[{"login":"b"},{"login":"a"}]'' \<noteq> []
   \<and> last (parseUsers ''a:1,b:2'' ''[{"login":"b"},{"login":"a"}]'') = CHR '' ''
   \<and> last (butlast (parseUsers ''a:1,b:2'' ''[{"login":"b"},{"login":"a"}]'')) \<noteq> CHR '' ''\<close>
proof -
  have \<open>parseUsers ''a:1,b:2'' ''[{"login":"b"},{"login":"a"}]'' \<noteq> []\<close>
    by code_simp
  then show ?thesis
    using parseUsers_output_whole_tokens [of "''a:1,b:2''" \<open>''[{"login":"b"},{"login":"a"}]''\<close>]
    by blast
qed

section \<open>The parser on a longer input\<close>

text \<open>
  What the parser reads at the head of an input does not depend on what follows the
  part it has read, except for a number that ends the input (more digits could follow).
\<close>

lemma dropWhile_append_nonempty:
  "dropWhile P s \<noteq> [] \<Longrightarrow> dropWhile P (s @ t) = dropWhile P s @ t"
  by (induction s) auto

lemma skipSpace_append: "skipSpace s = c # r \<Longrightarrow> skipSpace (s @ t) = c # r @ t"
  using dropWhile_append_nonempty [of isSpaceJSON s t] by (simp add: skipSpace_def)

lemma skipSpace_idem: "skipSpace (skipSpace s) = skipSpace s"
  by (simp add: skipSpace_def)

lemma skipSpace_head: "skipSpace s = c # r \<Longrightarrow> \<not> isSpaceJSON c"
  using hd_dropWhile [of isSpaceJSON s] by (auto simp: skipSpace_def)

lemma skipSpace_no_space: "\<not> isSpaceJSON c \<Longrightarrow> skipSpace (c # r) = c # r"
  by (simp add: skipSpace_def)

lemma skipSpace_all_space: "skipSpace r = [] \<Longrightarrow> \<not> isSpaceJSON c \<Longrightarrow> skipSpace (r @ c # t) = c # t"
  by (induction r) (auto simp: skipSpace_def split: if_splits)

lemma parseValue_skipSpace: "parseValue (skipSpace s) = parseValue s"
  by (simp add: parseValue.simps [of "skipSpace s"] parseValue.simps [of s] skipSpace_idem)

lemma getu4_append: "getu4 s = Some x \<Longrightarrow> getu4 (s @ t) = Some x"
  by (auto simp: getu4_def split: list.splits if_splits)

lemma getu4_quote: "CHR 0x22 \<in> set s \<Longrightarrow> getu4 (s @ t) = getu4 s"
proof (cases "getu4 s")
  case (Some x)
  then show ?thesis by (simp add: getu4_append)
next
  case None
  assume q: "CHR 0x22 \<in> set s"
  have hq: "hexVal (CHR 0x22) = None" by (simp add: hexVal_def)
  show ?thesis
  proof (cases "6 \<le> length s")
    case True
    then obtain a b c d e f r where "s = a # b # c # d # e # f # r"
      by (cases s; cases "tl s"; cases "tl (tl s)"; cases "tl (tl (tl s))";
          cases "tl (tl (tl (tl s)))"; cases "tl (tl (tl (tl (tl s))))") auto
    then show ?thesis by (simp add: getu4_def)
  next
    case False
    then consider "s = []" | a where "s = [a]" | a b where "s = [a, b]"
      | a b c where "s = [a, b, c]" | a b c d where "s = [a, b, c, d]"
      | a b c d e where "s = [a, b, c, d, e]"
      by (cases s; cases "tl s"; cases "tl (tl s)"; cases "tl (tl (tl s))";
          cases "tl (tl (tl (tl s)))"; cases "tl (tl (tl (tl (tl s))))") auto
    then show ?thesis
      using q hq None
      by cases (auto simp: getu4_def split: list.splits option.splits)
  qed
qed
lemma isCont_quote: "\<not> isCont (CHR 0x22)"
  by (simp add: isCont_def)
lemma runeWidth_quote:
  assumes "CHR 0x22 \<in> set cs"
  shows "runeWidth (c # cs @ t) = runeWidth (c # cs)"
proof -
  have b: "\<not> (128 \<le> (of_char (CHR 0x22) :: nat))" by simp
  consider c1 where "cs = [c1]" | c1 c2 where "cs = [c1, c2]"
    | c1 c2 c3 r where "cs = c1 # c2 # c3 # r"
    using assms by (cases cs; cases "tl cs"; cases "tl (tl cs)") auto
  then show ?thesis
  proof cases
    case 1
    with assms have "c1 = CHR 0x22" by simp
    with 1 show ?thesis
      by (cases t; cases "tl t") (auto simp: runeWidth_def Let_def isCont_def)
  next
    case 2
    with assms have "c1 = CHR 0x22 \<or> c2 = CHR 0x22" by auto
    with 2 show ?thesis
      by (cases t) (auto simp: runeWidth_def Let_def isCont_def)
  next
    case 3
    then show ?thesis by (simp add: runeWidth_def Let_def)
  qed
qed

lemma runeWidth_le: "runeWidth s \<le> length s"
proof -
  consider "s = []" | c where "s = [c]" | c c1 where "s = [c, c1]" | c c1 c2 where "s = [c, c1, c2]"
    | c c1 c2 c3 r where "s = c # c1 # c2 # c3 # r"
    by (cases s; cases "tl s"; cases "tl (tl s)"; cases "tl (tl (tl s))") auto
  then show ?thesis
    by cases (simp_all add: runeWidth_def Let_def)
qed

lemma runeWidth_append:
  assumes "runeWidth s \<noteq> 0"
  shows "runeWidth (s @ t) = runeWidth s"
proof -
  consider "s = []" | c where "s = [c]" | c c1 where "s = [c, c1]" | c c1 c2 where "s = [c, c1, c2]"
    | c c1 c2 c3 r where "s = c # c1 # c2 # c3 # r"
    by (cases s; cases "tl s"; cases "tl (tl s)"; cases "tl (tl (tl s))") auto
  then show ?thesis
  proof cases
    case 1
    with assms show ?thesis by (simp add: runeWidth_def)
  next
    case 2
    have "runeWidth [c] = 0" by (simp add: runeWidth_def Let_def)
    with assms 2 show ?thesis by simp
  next
    case 3
    have "runeWidth [c, c1] = (if 194 \<le> (of_char c :: nat) \<and> (of_char c :: nat) \<le> 223 \<and> isCont c1 then 2 else 0)"
      by (simp add: runeWidth_def Let_def)
    with assms 3 have "194 \<le> (of_char c :: nat) \<and> (of_char c :: nat) \<le> 223 \<and> isCont c1"
      by (simp split: if_splits)
    with 3 show ?thesis by (simp add: runeWidth_def Let_def)
  next
    case 4
    have "runeWidth [c, c1, c2] = runeWidth ([c, c1, c2] @ t) \<or> runeWidth [c, c1, c2] = 0"
      by (simp add: runeWidth_def Let_def)
    with assms 4 show ?thesis by simp
  next
    case 5
    then show ?thesis by (simp add: runeWidth_def Let_def)
  qed
qed
lemma unquoteStep_append:
  assumes "unquoteStep s = Some (bs, r)" and "CHR 0x22 \<in> set r"
  shows "unquoteStep (s @ t) = Some (bs, r @ t)"
proof -
  from assms(1) obtain c cs where s: "s = c # cs"
    by (cases s) (auto simp: unquoteStep_def)
  show ?thesis
  proof (cases "c = CHR 0x5C")
    case True
    with assms(1) s obtain e r0 where cs: "cs = e # r0"
      by (cases cs) (auto simp: unquoteStep_def)
    show ?thesis
    proof (cases "e = CHR ''u''")
      case u: True
      with assms(1) s cs True obtain rr where g: "getu4 s = Some rr"
        by (auto simp: unquoteStep_def split: option.splits)
      then have g': "getu4 (s @ t) = Some rr" by (rule getu4_append)
      from getu4_Some_length [OF g] s cs have len: "4 \<le> length r0" by simp
      show ?thesis
      proof (cases "55296 \<le> rr \<and> rr < 57344")
        case sur: True
        show ?thesis
        proof (cases "getu4 (drop 4 r0)")
          case None
          with assms(1) s cs True u g sur have r: "r = drop 4 r0" "bs = replacementChar"
            by (auto simp: unquoteStep_def Let_def)
          with assms(2) None have "getu4 (drop 4 r0 @ t) = None"
            by (simp add: getu4_quote)
          with s cs True u g g' sur r len show ?thesis
            by (simp add: unquoteStep_def Let_def)
        next
          case (Some rr1)
          then have g1: "getu4 (drop 4 r0 @ t) = Some rr1" by (rule getu4_append)
          from getu4_Some_length [OF Some] have "10 \<le> length r0" by simp
          with assms(1) s cs True u g g' sur Some g1 len show ?thesis
            by (auto simp: unquoteStep_def Let_def split: if_splits)
        qed
      next
        case False
        with assms(1) s cs True u g g' len show ?thesis
          by (auto simp: unquoteStep_def Let_def)
      qed
    next
      case False
      with assms(1) s cs True show ?thesis
        by (auto simp: unquoteStep_def split: option.splits)
    qed
  next
    case nb: False
    show ?thesis
    proof (cases "(of_char c :: nat) < 128")
      case True
      with assms(1) s nb show ?thesis
        by (auto simp: unquoteStep_def split: if_splits)
    next
      case False
      show ?thesis
      proof (cases "runeWidth s = 0")
        case True
        with assms(1) s nb False have r: "r = cs" "bs = replacementChar"
          by (auto simp: unquoteStep_def Let_def)
        with assms(2) s True have "runeWidth (s @ t) = 0"
          by (simp add: runeWidth_quote)
        with s nb False r show ?thesis
          by (simp add: unquoteStep_def Let_def)
      next
        case w: False
        have eq: "runeWidth (s @ t) = runeWidth s"
          using w by (rule runeWidth_append)
        from assms(1) s nb False w
        have bs: "bs = take (runeWidth s) s" and r: "r = drop (runeWidth s) s"
          by (auto simp: unquoteStep_def Let_def)
        have "unquoteStep (s @ t)
                = Some (take (runeWidth (s @ t)) (s @ t), drop (runeWidth (s @ t)) (s @ t))"
          using s nb False w eq by (simp add: unquoteStep_def Let_def)
        then show ?thesis
          using eq bs r runeWidth_le [of s] by simp
      qed
    qed
  qed
qed
lemma scanString_quote: "scanString acc s = Some (k, r) \<Longrightarrow> CHR 0x22 \<in> set s"
proof (induction acc s rule: scanString.induct)
  case (1 acc s)
  show ?case
  proof (cases s)
    case Nil
    with "1.prems" show ?thesis by (simp add: scanString.simps)
  next
    case (Cons c cs)
    show ?thesis
    proof (cases "c = CHR 0x22")
      case True
      with Cons show ?thesis by simp
    next
      case False
      with "1.prems" Cons obtain bs r1
        where st: "unquoteStep s = Some (bs, r1)" and rec: "scanString (acc @ bs) r1 = Some (k, r)"
        by (subst (asm) scanString.simps) (auto split: option.splits)
      from "1.IH" [OF Cons False st refl rec] have "CHR 0x22 \<in> set r1" .
      moreover have "set r1 \<subseteq> set s"
        using st by (auto simp: unquoteStep_def Let_def split: list.splits if_splits option.splits
              dest: in_set_dropD)
      ultimately show ?thesis by auto
    qed
  qed
qed
lemma scanString_append:
  "scanString acc s = Some (k, r) \<Longrightarrow> scanString acc (s @ t) = Some (k, r @ t)"
proof (induction acc s rule: scanString.induct)
  case (1 acc s)
  show ?case
  proof (cases s)
    case Nil
    with "1.prems" show ?thesis by (simp add: scanString.simps)
  next
    case (Cons c cs)
    show ?thesis
    proof (cases "c = CHR 0x22")
      case True
      with "1.prems" Cons show ?thesis by (simp add: scanString.simps)
    next
      case False
      with "1.prems" Cons obtain bs r1
        where st: "unquoteStep s = Some (bs, r1)" and rec: "scanString (acc @ bs) r1 = Some (k, r)"
        by (subst (asm) scanString.simps) (auto split: option.splits)
      from "1.IH" [OF Cons False st refl rec]
      have "scanString (acc @ bs) (r1 @ t) = Some (k, r @ t)" .
      moreover have "unquoteStep (s @ t) = Some (bs, r1 @ t)"
        using st scanString_quote [OF rec] by (rule unquoteStep_append)
      ultimately show ?thesis
        using Cons False by (subst scanString.simps) simp
    qed
  qed
qed

lemma scanDigits_append:
  "scanDigits s = Some r \<Longrightarrow> r \<noteq> [] \<Longrightarrow> scanDigits (s @ t) = Some (r @ t)"
  by (cases s) (auto simp: scanDigits_def dropWhile_append_nonempty split: if_splits)

lemma scanDigits_append_Cons:
  "scanDigits (a # l) = Some r \<Longrightarrow> r \<noteq> [] \<Longrightarrow> scanDigits (a # l @ t) = Some (r @ t)"
  using scanDigits_append [of "a # l" r t] by simp

lemma scanInt_append:
  "scanInt s = Some r \<Longrightarrow> r \<noteq> [] \<Longrightarrow> scanInt (s @ t) = Some (r @ t)"
  by (cases s) (auto simp: scanInt_def dropWhile_append_nonempty split: if_splits)

lemma scanFrac_append:
  "scanFrac s = Some r \<Longrightarrow> r \<noteq> [] \<Longrightarrow> s \<noteq> [] \<and> scanFrac (s @ t) = Some (r @ t)"
  by (cases s) (auto simp: scanFrac_def scanDigits_append split: if_splits)

lemma scanExp_append:
  "scanExp s = Some r \<Longrightarrow> r \<noteq> [] \<Longrightarrow> s \<noteq> [] \<and> scanExp (s @ t) = Some (r @ t)"
  by (cases s; cases "tl s")
     (auto simp: scanExp_def scanDigits_append scanDigits_append_Cons split: if_splits)

lemma scanNumber_append:
  assumes "scanNumber s = Some r" and "r \<noteq> []"
  shows "scanNumber (s @ t) = Some (r @ t)"
proof -
  let ?body = "\<lambda>s. case s of [] \<Rightarrow> [] | c # r \<Rightarrow> if c = CHR ''-'' then r else s"
  from assms(1) obtain r1 r2
    where i: "scanInt (?body s) = Some r1" and f: "scanFrac r1 = Some r2"
      and e: "scanExp r2 = Some r"
    by (auto simp: scanNumber_def Option.bind_eq_Some_conv)
  from scanExp_append [OF e assms(2)]
  have r2: "r2 \<noteq> []" and e': "scanExp (r2 @ t) = Some (r @ t)" by simp_all
  from scanFrac_append [OF f r2]
  have r1: "r1 \<noteq> []" and f': "scanFrac (r1 @ t) = Some (r2 @ t)" by simp_all
  from i have ne: "?body s \<noteq> []" by (auto simp: scanInt_def)
  then have b: "?body (s @ t) = ?body s @ t"
    by (cases s) auto
  from scanInt_append [OF i r1] b have "scanInt (?body (s @ t)) = Some (r1 @ t)" by simp
  with f' e' show ?thesis by (simp add: scanNumber_def)
qed

lemma scanLiteral_append:
  "scanLiteral lit v s = Some (w, r) \<Longrightarrow> scanLiteral lit v (s @ t) = Some (w, r @ t)"
proof -
  assume a: "scanLiteral lit v s = Some (w, r)"
  then have tk: "take (length lit) s = lit" and w: "w = v" and r: "r = drop (length lit) s"
    by (auto simp: scanLiteral_def split: if_splits)
  from tk have "length (take (length lit) s) = length lit" by simp
  then have "length lit \<le> length s" by simp
  with tk w r show ?thesis by (simp add: scanLiteral_def)
qed

lemma scanDigits_shorter: "scanDigits s = Some r \<Longrightarrow> length r < length s"
  using length_dropWhile_le [of isDigit "tl s"]
  by (cases s) (auto simp: scanDigits_def split: if_splits)

lemma scanInt_shorter: "scanInt s = Some r \<Longrightarrow> length r < length s"
  using length_dropWhile_le [of isDigit "tl s"]
  by (cases s) (auto simp: scanInt_def split: if_splits)

lemma scanFrac_le: "scanFrac s = Some r \<Longrightarrow> length r \<le> length s"
  by (cases s) (auto simp: scanFrac_def split: if_splits dest: scanDigits_shorter)

lemma scanExp_le: "scanExp s = Some r \<Longrightarrow> length r \<le> length s"
  by (cases s; cases "tl s") (auto simp: scanExp_def split: if_splits dest: scanDigits_shorter)

lemma scanNumber_shorter:
  assumes "scanNumber s = Some r"
  shows "length r < length s"
proof -
  let ?body = "case s of [] \<Rightarrow> [] | c # r \<Rightarrow> if c = CHR ''-'' then r else s"
  from assms obtain r1 r2
    where i: "scanInt ?body = Some r1" and f: "scanFrac r1 = Some r2" and e: "scanExp r2 = Some r"
    by (auto simp: scanNumber_def Option.bind_eq_Some_conv)
  have "length ?body \<le> length s" by (cases s) auto
  with scanInt_shorter [OF i] scanFrac_le [OF f] scanExp_le [OF e] show ?thesis by simp
qed

lemma scanLiteral_shorter:
  "scanLiteral lit v s = Some (w, r) \<Longrightarrow> lit \<noteq> [] \<Longrightarrow> length r < length s"
proof -
  assume a: "scanLiteral lit v s = Some (w, r)" and ne: "lit \<noteq> []"
  then have tk: "take (length lit) s = lit" and r: "r = drop (length lit) s"
    by (auto simp: scanLiteral_def split: if_splits)
  from tk have "length (take (length lit) s) = length lit" by simp
  then have "length lit \<le> length s" by simp
  with ne r show ?thesis by (cases lit) auto
qed

lemma parseElems_SomeD:
  "parseElems acc s = Some (v, r) \<Longrightarrow>
     \<exists>v1 r1 c r'. parseValue s = Some (v1, r1) \<and> skipSpace r1 = c # r' \<and>
        ((c = CHR '','' \<and> length r' < length s \<and> parseElems (acc @ [v1]) r' = Some (v, r))
         \<or> (c = CHR '']'' \<and> v = JArray (acc @ [v1]) \<and> r = r'))"
  by (subst (asm) parseElems.simps) (auto split: option.splits list.splits if_splits)

lemma parseElems_comma:
  "parseValue s = Some (v1, r1) \<Longrightarrow> skipSpace r1 = CHR '','' # r' \<Longrightarrow> length r' < length s \<Longrightarrow>
     parseElems acc s = parseElems (acc @ [v1]) r'"
  by (subst parseElems.simps) simp

lemma parseElems_close:
  "parseValue s = Some (v1, r1) \<Longrightarrow> skipSpace r1 = CHR '']'' # r' \<Longrightarrow>
     parseElems acc s = Some (JArray (acc @ [v1]), r')"
  by (subst parseElems.simps) simp

lemma parseMembers_SomeD:
  "parseMembers acc s = Some (v, r) \<Longrightarrow>
     \<exists>r0 k r1 r2 v1 r3 d r4.
        s = CHR 0x22 # r0 \<and> scanString [] r0 = Some (k, r1) \<and> skipSpace r1 = CHR '':'' # r2 \<and>
        parseValue r2 = Some (v1, r3) \<and> skipSpace r3 = d # r4 \<and>
        ((d = CHR '','' \<and> length (skipSpace r4) < length s \<and>
          parseMembers (acc @ [(k, v1)]) (skipSpace r4) = Some (v, r))
         \<or> (d = CHR ''}'' \<and> v = JObject (acc @ [(k, v1)]) \<and> r = r4))"
  by (subst (asm) parseMembers.simps) (auto split: option.splits list.splits if_splits)

lemma parseMembers_comma:
  "scanString [] r0 = Some (k, r1) \<Longrightarrow> skipSpace r1 = CHR '':'' # r2 \<Longrightarrow>
   parseValue r2 = Some (v1, r3) \<Longrightarrow> skipSpace r3 = CHR '','' # r4 \<Longrightarrow>
   length (skipSpace r4) < Suc (length r0) \<Longrightarrow>
     parseMembers acc (CHR 0x22 # r0) = parseMembers (acc @ [(k, v1)]) (skipSpace r4)"
  by (subst parseMembers.simps) simp

lemma parseMembers_close:
  "scanString [] r0 = Some (k, r1) \<Longrightarrow> skipSpace r1 = CHR '':'' # r2 \<Longrightarrow>
   parseValue r2 = Some (v1, r3) \<Longrightarrow> skipSpace r3 = CHR ''}'' # r4 \<Longrightarrow>
     parseMembers acc (CHR 0x22 # r0) = Some (JObject (acc @ [(k, v1)]), r4)"
  by (subst parseMembers.simps) simp

lemma parseValue_head:
  assumes "parseValue s = Some (v, r)"
  obtains c r0 where "skipSpace s = c # r0"
  using assms by (cases "skipSpace s") (auto simp: parseValue.simps [of s])

text \<open>The value read is never empty: the input left is shorter than the input.\<close>

lemma parse_shorter:
  "parseValue s = Some (v, r) \<Longrightarrow> length r < length s"
  "parseElems acc1 s1 = Some (va, ra) \<Longrightarrow> length ra < length s1"
  "parseMembers acc2 s2 = Some (vb, rb) \<Longrightarrow> length rb < length s2"
proof (induction s and acc1 s1 and acc2 s2 arbitrary: v r and va ra and vb rb
    rule: parseValue_parseElems_parseMembers.induct)
  case (1 s)
  from "1.prems" obtain c r0 where sk: "skipSpace s = c # r0" by (rule parseValue_head)
  have len: "length r0 < length s" using length_skipSpace [of s] sk by simp
  from "1.prems" sk have unf:
    "(if c = CHR ''{'' then
        (case skipSpace r0 of
           [] \<Rightarrow> None
         | d # r' \<Rightarrow> if d = CHR ''}'' then Some (JObject [], r') else parseMembers [] (d # r'))
      else if c = CHR ''['' then
        (case skipSpace r0 of
           [] \<Rightarrow> None
         | d # r' \<Rightarrow> if d = CHR '']'' then Some (JArray [], r') else parseElems [] (d # r'))
      else if c = CHR 0x22 then
        (case scanString [] r0 of None \<Rightarrow> None | Some (str, r') \<Rightarrow> Some (JString str, r'))
      else if c = CHR ''-'' \<or> isDigit c then
        (case scanNumber (c # r0) of
           None \<Rightarrow> None
         | Some r' \<Rightarrow> Some (JNumber (take (length (c # r0) - length r') (c # r0)), r'))
      else if c = CHR ''t'' then scanLiteral ''true'' (JBool True) (c # r0)
      else if c = CHR ''f'' then scanLiteral ''false'' (JBool False) (c # r0)
      else if c = CHR ''n'' then scanLiteral ''null'' JNull (c # r0)
      else None) = Some (v, r)"
    by (simp add: parseValue.simps [of s])
  show ?case
  proof (cases "c = CHR ''{''")
    case True
    with unf obtain d r' where sk2: "skipSpace r0 = d # r'"
      by (cases "skipSpace r0") auto
    have len2: "length r' < length r0" using length_skipSpace [of r0] sk2 by simp
    show ?thesis
    proof (cases "d = CHR ''}''")
      case d: True
      with unf True sk2 len len2 show ?thesis by simp
    next
      case d: False
      with unf True sk2 have "parseMembers [] (d # r') = Some (v, r)" by simp
      from "1.IH"(1) [OF sk True sk2 d this] len len2 show ?thesis by simp
    qed
  next
    case no: False
    show ?thesis
    proof (cases "c = CHR ''[''")
      case True
      with unf no obtain d r' where sk2: "skipSpace r0 = d # r'"
        by (cases "skipSpace r0") auto
      have len2: "length r' < length r0" using length_skipSpace [of r0] sk2 by simp
      show ?thesis
      proof (cases "d = CHR '']''")
        case d: True
        with unf no True sk2 len len2 show ?thesis by simp
      next
        case d: False
        with unf no True sk2 have "parseElems [] (d # r') = Some (v, r)" by simp
        from "1.IH"(2) [OF sk no True sk2 d this] len len2 show ?thesis by simp
      qed
    next
      case na: False
      from unf no na len show ?thesis
        by (auto split: if_splits option.splits
              dest: scanString_shorter scanNumber_shorter scanLiteral_shorter)
    qed
  qed
next
  case (2 acc s)
  from "2.prems" obtain v1 r1 c r'
    where pv: "parseValue s = Some (v1, r1)" and sk: "skipSpace r1 = c # r'"
      and alt: "(c = CHR '','' \<and> length r' < length s \<and> parseElems (acc @ [v1]) r' = Some (va, ra))
         \<or> (c = CHR '']'' \<and> va = JArray (acc @ [v1]) \<and> ra = r')"
    using parseElems_SomeD by blast
  have "length r' < length r1" using length_skipSpace [of r1] sk by simp
  with "2.IH"(1) [OF pv] have len: "length r' < length s" by simp
  from alt show ?case
  proof
    assume a: "c = CHR '','' \<and> length r' < length s \<and> parseElems (acc @ [v1]) r' = Some (va, ra)"
    from "2.IH"(2) [OF pv refl sk] a len show ?thesis by simp
  next
    assume "c = CHR '']'' \<and> va = JArray (acc @ [v1]) \<and> ra = r'"
    with len show ?thesis by simp
  qed
next
  case (3 acc s)
  from "3.prems" obtain r0 k r1 r2 v1 r3 d r4
    where s: "s = CHR 0x22 # r0" and ss: "scanString [] r0 = Some (k, r1)"
      and sk1: "skipSpace r1 = CHR '':'' # r2" and pv: "parseValue r2 = Some (v1, r3)"
      and sk3: "skipSpace r3 = d # r4"
      and alt: "(d = CHR '','' \<and> length (skipSpace r4) < length s \<and>
          parseMembers (acc @ [(k, v1)]) (skipSpace r4) = Some (vb, rb))
         \<or> (d = CHR ''}'' \<and> vb = JObject (acc @ [(k, v1)]) \<and> rb = r4)"
    using parseMembers_SomeD by blast
  have l1: "length r1 < length r0" using ss by (rule scanString_shorter)
  have l2: "length r2 < length r1" using length_skipSpace [of r1] sk1 by simp
  have l3: "length r3 < length r2" using "3.IH"(1) [OF s refl ss refl sk1 refl pv] .
  have l4: "length r4 < length r3" using length_skipSpace [of r3] sk3 by simp
  from alt show ?case
  proof
    assume a: "d = CHR '','' \<and> length (skipSpace r4) < length s \<and>
          parseMembers (acc @ [(k, v1)]) (skipSpace r4) = Some (vb, rb)"
    from "3.IH"(2) [OF s refl ss refl sk1 refl pv refl sk3] a show ?thesis by simp
  next
    assume "d = CHR ''}'' \<and> vb = JObject (acc @ [(k, v1)]) \<and> rb = r4"
    with s l1 l2 l3 l4 show ?thesis by simp
  qed
qed

lemma take_diff_append: "take (length xs - k) (xs @ t) = take (length xs - k) xs"
  by simp

lemma parse_append:
  "parseValue s = Some (v, r) \<Longrightarrow> r \<noteq> [] \<or> (\<forall>n. v \<noteq> JNumber n) \<Longrightarrow>
     parseValue (s @ t) = Some (v, r @ t)"
  "parseElems acc1 s1 = Some (va, ra) \<Longrightarrow> parseElems acc1 (s1 @ t) = Some (va, ra @ t)"
  "parseMembers acc2 s2 = Some (vb, rb) \<Longrightarrow> parseMembers acc2 (s2 @ t) = Some (vb, rb @ t)"
proof (induction s and acc1 s1 and acc2 s2 arbitrary: v r and va ra and vb rb
    rule: parseValue_parseElems_parseMembers.induct)
  case (1 s)
  from "1.prems"(1) obtain c r0 where sk: "skipSpace s = c # r0" by (rule parseValue_head)
  then have skt: "skipSpace (s @ t) = c # r0 @ t" by (rule skipSpace_append)
  note unf = "1.prems"(1) [unfolded parseValue.simps [of s] sk list.case]
  show ?case
  proof (cases "c = CHR ''{''")
    case True
    with unf obtain d r' where sk2: "skipSpace r0 = d # r'"
      by (cases "skipSpace r0") auto
    then have sk2t: "skipSpace (r0 @ t) = d # r' @ t" by (rule skipSpace_append)
    show ?thesis
    proof (cases "d = CHR ''}''")
      case d: True
      with unf True sk2 skt sk2t show ?thesis
        by (simp add: parseValue.simps [of "s @ t"])
    next
      case d: False
      with unf True sk2 have "parseMembers [] (d # r') = Some (v, r)" by simp
      from "1.IH"(1) [OF sk True sk2 d this] True d skt sk2t show ?thesis
        by (simp add: parseValue.simps [of "s @ t"])
    qed
  next
    case no: False
    show ?thesis
    proof (cases "c = CHR ''[''")
      case True
      with unf no obtain d r' where sk2: "skipSpace r0 = d # r'"
        by (cases "skipSpace r0") auto
      then have sk2t: "skipSpace (r0 @ t) = d # r' @ t" by (rule skipSpace_append)
      show ?thesis
      proof (cases "d = CHR '']''")
        case d: True
        with unf no True sk2 skt sk2t show ?thesis
          by (simp add: parseValue.simps [of "s @ t"])
      next
        case d: False
        with unf no True sk2 have "parseElems [] (d # r') = Some (v, r)" by simp
        from "1.IH"(2) [OF sk no True sk2 d this] no True d skt sk2t show ?thesis
          by (simp add: parseValue.simps [of "s @ t"])
      qed
    next
      case na: False
      show ?thesis
      proof (cases "c = CHR 0x22")
        case True
        with unf no na obtain str where "scanString [] r0 = Some (str, r)" "v = JString str"
          by (auto split: option.splits)
        with scanString_append [of "[]" r0 str r t] no na True skt show ?thesis
          by (simp add: parseValue.simps [of "s @ t"])
      next
        case nq: False
        show ?thesis
        proof (cases "c = CHR ''-'' \<or> isDigit c")
          case True
          with unf no na nq have sn: "scanNumber (c # r0) = Some r"
            and v: "v = JNumber (take (length (c # r0) - length r) (c # r0))"
            by (auto split: option.splits)
          from v "1.prems"(2) have "r \<noteq> []" by simp
          with sn have "scanNumber ((c # r0) @ t) = Some (r @ t)" by (rule scanNumber_append)
          with no na nq True skt v take_diff_append [of "c # r0" "length r" t] show ?thesis
            by (simp add: parseValue.simps [of "s @ t"])
        next
          case nn: False
          with unf no na nq scanLiteral_append [of _ _ "c # r0" v r t] skt show ?thesis
            by (auto simp: parseValue.simps [of "s @ t"] split: if_splits)
        qed
      qed
    qed
  qed
next
  case (2 acc s)
  from "2.prems" obtain v1 r1 c r'
    where pv: "parseValue s = Some (v1, r1)" and sk: "skipSpace r1 = c # r'"
      and alt: "(c = CHR '','' \<and> length r' < length s \<and> parseElems (acc @ [v1]) r' = Some (va, ra))
         \<or> (c = CHR '']'' \<and> va = JArray (acc @ [v1]) \<and> ra = r')"
    using parseElems_SomeD by blast
  from sk have "r1 \<noteq> []" by (auto simp: skipSpace_def)
  with "2.IH"(1) [OF pv] have pvt: "parseValue (s @ t) = Some (v1, r1 @ t)" by simp
  from sk have skt: "skipSpace (r1 @ t) = c # r' @ t" by (rule skipSpace_append)
  from alt show ?case
  proof
    assume a: "c = CHR '','' \<and> length r' < length s \<and> parseElems (acc @ [v1]) r' = Some (va, ra)"
    with "2.IH"(2) [OF pv refl sk] have "parseElems (acc @ [v1]) (r' @ t) = Some (va, ra @ t)"
      by simp
    moreover from a skt have "skipSpace (r1 @ t) = CHR '','' # r' @ t" by simp
    from parseElems_comma [OF pvt this] a
    have "parseElems acc (s @ t) = parseElems (acc @ [v1]) (r' @ t)" by simp
    ultimately show ?thesis by simp
  next
    assume a: "c = CHR '']'' \<and> va = JArray (acc @ [v1]) \<and> ra = r'"
    with skt have "skipSpace (r1 @ t) = CHR '']'' # r' @ t" by simp
    from parseElems_close [OF pvt this] a show ?thesis by simp
  qed
next
  case (3 acc s)
  from "3.prems" obtain r0 k r1 r2 v1 r3 d r4
    where s: "s = CHR 0x22 # r0" and ss: "scanString [] r0 = Some (k, r1)"
      and sk1: "skipSpace r1 = CHR '':'' # r2" and pv: "parseValue r2 = Some (v1, r3)"
      and sk3: "skipSpace r3 = d # r4"
      and alt: "(d = CHR '','' \<and> length (skipSpace r4) < length s \<and>
          parseMembers (acc @ [(k, v1)]) (skipSpace r4) = Some (vb, rb))
         \<or> (d = CHR ''}'' \<and> vb = JObject (acc @ [(k, v1)]) \<and> rb = r4)"
    using parseMembers_SomeD by blast
  from ss have sst: "scanString [] (r0 @ t) = Some (k, r1 @ t)" by (rule scanString_append)
  from sk1 have sk1t: "skipSpace (r1 @ t) = CHR '':'' # r2 @ t" by (rule skipSpace_append)
  from sk3 have "r3 \<noteq> []" by (auto simp: skipSpace_def)
  with "3.IH"(1) [OF s refl ss refl sk1 refl pv] have pvt: "parseValue (r2 @ t) = Some (v1, r3 @ t)"
    by simp
  from sk3 have sk3t: "skipSpace (r3 @ t) = d # r4 @ t" by (rule skipSpace_append)
  from alt show ?case
  proof
    assume a: "d = CHR '','' \<and> length (skipSpace r4) < length s \<and>
          parseMembers (acc @ [(k, v1)]) (skipSpace r4) = Some (vb, rb)"
    then obtain q r5 where sk4: "skipSpace r4 = q # r5"
      by (cases "skipSpace r4") (auto simp: parseMembers.simps [of _ "[]"])
    then have sk4t: "skipSpace (r4 @ t) = skipSpace r4 @ t" by (simp add: skipSpace_append)
    from "3.IH"(2) [OF s refl ss refl sk1 refl pv refl sk3] a
    have "parseMembers (acc @ [(k, v1)]) (skipSpace r4 @ t) = Some (vb, rb @ t)" by simp
    moreover from a sk3t have "skipSpace (r3 @ t) = CHR '','' # r4 @ t" by simp
    from parseMembers_comma [OF sst sk1t pvt this] a s sk4t
    have "parseMembers acc (s @ t) = parseMembers (acc @ [(k, v1)]) (skipSpace r4 @ t)"
      by simp
    ultimately show ?thesis by simp
  next
    assume a: "d = CHR ''}'' \<and> vb = JObject (acc @ [(k, v1)]) \<and> rb = r4"
    with sk3t have "skipSpace (r3 @ t) = CHR ''}'' # r4 @ t" by simp
    from parseMembers_close [OF sst sk1t pvt this] a s show ?thesis by simp
  qed
qed

text \<open>The length tests in \<open>parseElems\<close> and \<open>parseMembers\<close> never fail.\<close>

lemma parseElems_unguarded:
  "parseElems acc s =
     (case parseValue s of
        None \<Rightarrow> None
      | Some (v, r) \<Rightarrow>
          (case skipSpace r of
             [] \<Rightarrow> None
           | c # r' \<Rightarrow>
               if c = CHR '','' then parseElems (acc @ [v]) r'
               else if c = CHR '']'' then Some (JArray (acc @ [v]), r')
               else None))"
proof (cases "parseValue s")
  case None
  then show ?thesis by (simp add: parseElems.simps [of acc s])
next
  case (Some vr)
  obtain v r where vr: "vr = (v, r)" by (cases vr)
  show ?thesis
  proof (cases "skipSpace r")
    case Nil
    with Some vr show ?thesis by (simp add: parseElems.simps [of acc s])
  next
    case (Cons c r')
    have "length r' < length r" using length_skipSpace [of r] Cons by simp
    with parse_shorter(1) [of s v r] Some vr have "length r' < length s" by simp
    with Some vr Cons show ?thesis by (simp add: parseElems.simps [of acc s])
  qed
qed

lemma parseMembers_unguarded:
  assumes "scanString [] r0 = Some (k, r1)" and "skipSpace r1 = CHR '':'' # r2"
    and "parseValue r2 = Some (v, r3)" and "skipSpace r3 = CHR '','' # r4"
  shows "parseMembers acc (CHR 0x22 # r0) = parseMembers (acc @ [(k, v)]) (skipSpace r4)"
proof -
  have "length r1 < length r0" using assms(1) by (rule scanString_shorter)
  moreover have "length r2 < length r1" using length_skipSpace [of r1] assms(2) by simp
  moreover have "length r3 < length r2" using assms(3) by (rule parse_shorter(1))
  moreover have "length r4 < length r3" using length_skipSpace [of r3] assms(4) by simp
  ultimately have "length (skipSpace r4) < Suc (length r0)"
    using length_skipSpace [of r4] by simp
  with assms show ?thesis by (rule parseMembers_comma)
qed

section \<open>A single object in place of the array\<close>

text \<open>
  An object between brackets is read as the array of that object; the array is one level
  deeper than the object.
\<close>

lemma parseValue_wrap:
  assumes pv: "parseValue obj = Some (JObject fs, r)" and ws: "skipSpace r = []"
  shows "parseValue (''['' @ obj @ '']'') = Some (JArray [JObject fs], [])"
proof -
  from pv obtain c r0 where sk: "skipSpace obj = c # r0" by (rule parseValue_head)
  from pv sk have c: "c \<noteq> CHR '']''"
    by (auto simp: parseValue.simps [of obj] isDigit_def)
  from pv have "parseValue (skipSpace obj) = Some (JObject fs, r)"
    by (simp add: parseValue_skipSpace)
  then have "parseValue (skipSpace obj @ '']'') = Some (JObject fs, r @ '']'')"
    by (rule parse_append(1)) simp
  moreover have "skipSpace (r @ '']'') = '']''"
    using skipSpace_all_space [OF ws, of "CHR '']''" "[]"] by (simp add: isSpaceJSON_def)
  ultimately have "parseElems [] (skipSpace obj @ '']'') = Some (JArray ([] @ [JObject fs]), [])"
    by (rule parseElems_close)
  moreover have "skipSpace (obj @ '']'') = c # r0 @ '']''"
    using sk by (rule skipSpace_append)
  moreover have "skipSpace (CHR ''['' # obj @ '']'') = CHR ''['' # obj @ '']''"
    by (rule skipSpace_no_space) (simp add: isSpaceJSON_def)
  ultimately show ?thesis
    using c sk by (simp add: parseValue.simps [of "CHR ''['' # obj @ '']''"])
qed

lemma parseJSON_wrap:
  assumes "parseJSON obj = Some (JObject fs)"
  shows "parseJSON (''['' @ obj @ '']'')
           = (if depth (JObject fs) < maxNestingDepth then Some (JArray [JObject fs]) else None)"
proof -
  from assms obtain r where pv: "parseValue obj = Some (JObject fs, r)" and ws: "skipSpace r = []"
    by (auto simp: parseJSON_def split: option.splits if_splits)
  from parseValue_wrap [OF pv ws] show ?thesis
    by (auto simp: parseJSON_def skipSpace_def)
qed

lemma parseJSON_nonempty: "parseJSON s = Some v \<Longrightarrow> s \<noteq> []"
  by (auto simp: parseJSON_def parseValue.simps [of "[]"] skipSpace_def)

lemma parseAssignees_object:
  assumes "parseJSON obj = Some (JObject fs)"
  shows "UnmarshalSlice obj = None"
    and "parseAssignees obj = (case UnmarshalStruct obj of None \<Rightarrow> None | Some x \<Rightarrow> Some [x])"
    and "depth (JObject fs) < maxNestingDepth \<Longrightarrow>
           parseAssignees (''['' @ obj @ '']'') = parseAssignees obj"
    and "\<not> depth (JObject fs) < maxNestingDepth \<Longrightarrow> parseAssignees (''['' @ obj @ '']'') = None"
proof -
  show 1: "UnmarshalSlice obj = None"
    using assms by (simp add: UnmarshalSlice_def decodeSlice_def)
  then show 2: "parseAssignees obj = (case UnmarshalStruct obj of None \<Rightarrow> None | Some x \<Rightarrow> Some [x])"
    by (simp add: parseAssignees_def)
  show "parseAssignees (''['' @ obj @ '']'') = parseAssignees obj"
    if d: "depth (JObject fs) < maxNestingDepth"
  proof -
    have "UnmarshalStruct obj = decodeStruct (JObject fs)"
      using assms by (simp add: UnmarshalStruct_def)
    moreover have "UnmarshalSlice (''['' @ obj @ '']'')
        = (case decodeStruct (JObject fs) of None \<Rightarrow> None | Some x \<Rightarrow> Some [x])"
      using parseJSON_wrap [OF assms] d
      by (simp add: UnmarshalSlice_def decodeSlice_def split: option.splits)
    moreover have "UnmarshalStruct (''['' @ obj @ '']'') = None"
      using parseJSON_wrap [OF assms] d by (simp add: UnmarshalStruct_def decodeStruct_def)
    ultimately show ?thesis
      using 2 by (simp add: parseAssignees_def split: option.splits)
  qed
  show "parseAssignees (''['' @ obj @ '']'') = None" if "\<not> depth (JObject fs) < maxNestingDepth"
    using parseJSON_wrap [OF assms] that
    by (simp add: parseAssignees_def UnmarshalSlice_def UnmarshalStruct_def)
qed

text \<open>
  C2, as amended. For every user map and every text that is a JSON object (with a
  \<open>login\<close> member or without) nested less deeply than the limit of the decoder, the
  array parse fails, the assignees are the one record the object decodes to, and the
  output is the output for the object between brackets.
\<close>

theorem single_object_as_array:
  "parseJSON obj = Some (JObject fs) \<Longrightarrow> depth (JObject fs) < maxNestingDepth \<Longrightarrow>
     UnmarshalSlice obj = None
     \<and> parseAssignees obj = (case UnmarshalStruct obj of None \<Rightarrow> None | Some x \<Rightarrow> Some [x])
     \<and> parseUsers m obj = parseUsers m (''['' @ obj @ '']'')"
proof -
  assume p: "parseJSON obj = Some (JObject fs)" and d: "depth (JObject fs) < maxNestingDepth"
  from p have "obj \<noteq> []" by (rule parseJSON_nonempty)
  with parseAssignees_object(1,2) [OF p] parseAssignees_object(3) [OF p d] show ?thesis
    by (simp add: parseUsers_def)
qed

theorem single_object_as_array_witness:
  \<open>parseJSON '' {"id": 7, "login": "a"} ''
     = Some (JObject [(''id'', JNumber ''7''), (''login'', JString ''a'')])
   \<and> depth (JObject [(''id'', JNumber ''7''), (''login'', JString ''a'')]) < maxNestingDepth
   \<and> UnmarshalSlice '' {"id": 7, "login": "a"} '' = None
   \<and> parseAssignees '' {"id": 7, "login": "a"} '' = Some [\<lparr>Login = ''a''\<rparr>]
   \<and> parseUsers ''b:2,a:1'' '' {"id": 7, "login": "a"} ''
       = parseUsers ''b:2,a:1'' (''['' @ '' {"id": 7, "login": "a"} '' @ '']'')
   \<and> parseUsers ''b:2,a:1'' '' {"id": 7, "login": "a"} '' = ''<at user_id="1">a</at> ''\<close>
proof -
  have p: \<open>parseJSON '' {"id": 7, "login": "a"} ''
     = Some (JObject [(''id'', JNumber ''7''), (''login'', JString ''a'')])\<close>
    and u: \<open>UnmarshalStruct '' {"id": 7, "login": "a"} '' = Some \<lparr>Login = ''a''\<rparr>\<close>
    and e: \<open>parseUsers ''b:2,a:1'' '' {"id": 7, "login": "a"} '' = ''<at user_id="1">a</at> ''\<close>
    by code_simp+
  have d: "depth (JObject [(''id'', JNumber ''7''), (''login'', JString ''a'')]) < maxNestingDepth"
    by (simp add: maxNestingDepth_def)
  from single_object_as_array [OF p d, of "''b:2,a:1''"] p d u e show ?thesis
    by simp
qed

text \<open>
  \<open>nestedArrays n\<close> is the value of \<open>n + 1\<close> opening brackets followed by \<open>n + 1\<close>
  closing brackets: an empty array inside \<open>n\<close> arrays of one element.
\<close>

primrec nestedArrays :: "nat \<Rightarrow> json" where
  "nestedArrays 0 = JArray []"
| "nestedArrays (Suc n) = JArray [nestedArrays n]"

lemma depth_nestedArrays: "depth (nestedArrays n) = Suc n"
  by (induction n) simp_all

lemma parseValue_nestedArrays:
  "parseValue (replicate n (CHR ''['') @ CHR ''['' # CHR '']'' # replicate n (CHR '']'') @ t)
     = Some (nestedArrays n, t)"
proof (induction n arbitrary: t)
  case 0
  show ?case
    by (simp add: parseValue.simps [of "CHR ''['' # CHR '']'' # t"] skipSpace_def isSpaceJSON_def)
next
  case (Suc n)
  let ?rest = "replicate n (CHR ''['') @ CHR '']'' # replicate n (CHR '']'') @ CHR '']'' # t"
  have inner: "replicate n (CHR ''['') @ CHR ''['' # CHR '']'' # replicate n (CHR '']'') @ CHR '']'' # t
      = CHR ''['' # ?rest"
    by (simp add: replicate_app_Cons_same)
  have "parseValue (CHR ''['' # ?rest) = Some (nestedArrays n, CHR '']'' # t)"
    using Suc.IH [of "CHR '']'' # t"] by (simp only: inner)
  moreover have "skipSpace (CHR '']'' # t) = CHR '']'' # t"
    by (simp add: skipSpace_def isSpaceJSON_def)
  ultimately have el: "parseElems [] (CHR ''['' # ?rest) = Some (JArray ([] @ [nestedArrays n]), t)"
    by (rule parseElems_close)
  have whole: "replicate (Suc n) (CHR ''['') @ CHR ''['' # CHR '']'' # replicate (Suc n) (CHR '']'') @ t
      = CHR ''['' # CHR ''['' # ?rest"
    by (simp add: replicate_app_Cons_same)
  have "parseValue (CHR ''['' # CHR ''['' # ?rest) = Some (JArray [nestedArrays n], t)"
    using el
    by (subst parseValue.simps) (simp add: skipSpace_def isSpaceJSON_def)
  then show ?case
    by (simp only: whole nestedArrays.simps)
qed

lemma replicate_brackets:
  "replicate (Suc n) a @ replicate (Suc n) b = replicate n a @ a # b # replicate n b"
  by (simp add: replicate_app_Cons_same)

text \<open>
  The object \<open>{"login":"a","x":[[...]]}\<close> with 9999 arrays around one another is 10000
  levels deep.
\<close>

lemma parseValue_deep_object:
  \<open>parseValue (''{"login":"a","x":'' @ replicate 9999 (CHR ''['') @ replicate 9999 (CHR '']'') @ ''}'')
     = Some (JObject [(''login'', JString ''a''), (''x'', nestedArrays 9998)], [])\<close>
proof -
  let ?arr = "replicate 9999 (CHR ''['') @ replicate 9999 (CHR '']'')"
  have s1: \<open>scanString [] ''login"'' = Some (''login'', [])\<close>
    and s2: \<open>scanString [] ''x"'' = Some (''x'', [])\<close>
    and v1: \<open>parseValue ''"a"'' = Some (JString ''a'', [])\<close>
    by code_simp+
  have ss1: \<open>scanString [] (''login":"a","x":'' @ ?arr @ ''}'')
      = Some (''login'', '':"a","x":'' @ ?arr @ ''}'')\<close>
    using scanString_append [OF s1, of \<open>'':"a","x":'' @ ?arr @ ''}''\<close>] by simp
  have sk1: \<open>skipSpace ('':"a","x":'' @ ?arr @ ''}'') = CHR '':'' # (''"a","x":'' @ ?arr @ ''}'')\<close>
    by (simp add: skipSpace_def isSpaceJSON_def)
  have pv1: \<open>parseValue (''"a","x":'' @ ?arr @ ''}'') = Some (JString ''a'', '',"x":'' @ ?arr @ ''}'')\<close>
    using parse_append(1) [OF v1, of \<open>'',"x":'' @ ?arr @ ''}''\<close>] by simp
  have sk2: \<open>skipSpace ('',"x":'' @ ?arr @ ''}'') = CHR '','' # (''"x":'' @ ?arr @ ''}'')\<close>
    by (simp add: skipSpace_def isSpaceJSON_def)
  have sk2': \<open>skipSpace (''"x":'' @ ?arr @ ''}'') = CHR 0x22 # (''x":'' @ ?arr @ ''}'')\<close>
    by (simp add: skipSpace_def isSpaceJSON_def)
  have ss2: \<open>scanString [] (''x":'' @ ?arr @ ''}'') = Some (''x'', '':'' @ ?arr @ ''}'')\<close>
    using scanString_append [OF s2, of \<open>'':'' @ ?arr @ ''}''\<close>] by simp
  have sk3: \<open>skipSpace ('':'' @ ?arr @ ''}'') = CHR '':'' # (?arr @ ''}'')\<close>
    by (simp add: skipSpace_def isSpaceJSON_def)
  have "?arr = replicate 9998 (CHR ''['') @ CHR ''['' # CHR '']'' # replicate 9998 (CHR '']'')"
    using replicate_brackets [of 9998 "CHR ''[''" "CHR '']''"] by simp
  then have pv2: "parseValue (?arr @ ''}'') = Some (nestedArrays 9998, ''}'')"
    using parseValue_nestedArrays [of 9998 "''}''"] by simp
  have sk4: "skipSpace ''}'' = CHR ''}'' # []"
    by (simp add: skipSpace_def isSpaceJSON_def)
  have m2: \<open>parseMembers [(''login'', JString ''a'')] (CHR 0x22 # (''x":'' @ ?arr @ ''}''))
      = Some (JObject ([(''login'', JString ''a'')] @ [(''x'', nestedArrays 9998)]), [])\<close>
    using ss2 sk3 pv2 sk4 by (rule parseMembers_close)
  have m1: \<open>parseMembers [] (CHR 0x22 # (''login":"a","x":'' @ ?arr @ ''}''))
      = parseMembers ([] @ [(''login'', JString ''a'')]) (skipSpace (''"x":'' @ ?arr @ ''}''))\<close>
    using ss1 sk1 pv1 sk2 by (rule parseMembers_unguarded)
  from m1 m2 sk2' have \<open>parseMembers [] (''"login":"a","x":'' @ ?arr @ ''}'')
      = Some (JObject [(''login'', JString ''a''), (''x'', nestedArrays 9998)], [])\<close>
    by simp
  then show ?thesis
    by (subst parseValue.simps) (simp add: skipSpace_def isSpaceJSON_def)
qed

text \<open>
  C2, as stated, fails at that object: read alone it is within the limit of the decoder
  and gives the mention of \<open>a\<close>; between brackets it is one level too deep, both decodings
  fail with a syntax error and the output is empty.
\<close>

theorem single_object_as_array_counterexample:
  \<open>parseJSON (''{"login":"a","x":'' @ replicate 9999 (CHR ''['') @ replicate 9999 (CHR '']'') @ ''}'')
     = Some (JObject [(''login'', JString ''a''), (''x'', nestedArrays 9998)])
   \<and> parseUsers ''a:1''
        (''{"login":"a","x":'' @ replicate 9999 (CHR ''['') @ replicate 9999 (CHR '']'') @ ''}'')
       = ''<at user_id="1">a</at> ''
   \<and> parseUsers ''a:1''
        (''['' @ (''{"login":"a","x":'' @ replicate 9999 (CHR ''['') @ replicate 9999 (CHR '']'') @ ''}'')
          @ '']'')
       = []
   \<and> parseUsers ''a:1''
        (''{"login":"a","x":'' @ replicate 9999 (CHR ''['') @ replicate 9999 (CHR '']'') @ ''}'')
       \<noteq> parseUsers ''a:1''
        (''['' @ (''{"login":"a","x":'' @ replicate 9999 (CHR ''['') @ replicate 9999 (CHR '']'') @ ''}'')
          @ '']'')\<close>
proof -
  let ?obj = \<open>''{"login":"a","x":'' @ replicate 9999 (CHR ''['') @ replicate 9999 (CHR '']'') @ ''}''\<close>
  let ?fs = "[(''login'', JString ''a''), (''x'', nestedArrays 9998)]"
  have d: "depth (JObject ?fs) = maxNestingDepth"
    by (simp add: depth_nestedArrays maxNestingDepth_def)
  have p: "parseJSON ?obj = Some (JObject ?fs)"
    using parseValue_deep_object d by (simp add: parseJSON_def skipSpace_def)
  have "decodeStruct (JObject ?fs) = Some \<lparr>Login = ''a''\<rparr>"
    by (simp add: decodeStruct_def namesLogin_def upperByte_def char_of_eq_iff)
  with p have "UnmarshalStruct ?obj = Some \<lparr>Login = ''a''\<rparr>"
    by (simp add: UnmarshalStruct_def)
  with parseAssignees_object(2) [OF p] have a: "parseAssignees ?obj = Some [\<lparr>Login = ''a''\<rparr>]"
    by simp
  have \<open>foldl (parseUsers_pair (makeLoginSet [\<lparr>Login = ''a''\<rparr>])) [] (Split ''a:1'' (CHR '',''))
      = ''<at user_id="1">a</at> ''\<close>
    by code_simp
  with a have 1: \<open>parseUsers ''a:1'' ?obj = ''<at user_id="1">a</at> ''\<close>
    by (simp add: parseUsers_def)
  from parseAssignees_object(4) [OF p] d have "parseAssignees (''['' @ ?obj @ '']'') = None"
    by simp
  then have 2: "parseUsers ''a:1'' (''['' @ ?obj @ '']'') = []"
    by (simp add: parseUsers_def)
  from p 1 2 show ?thesis by simp
qed

end
